theory Spec2Isabelle
  imports Main "HOL-Library.Word"
begin

unbundle bit_operations_syntax

section \<open>The circuit description consumed by the witness calculator\<close>

text \<open>
  The calculator of \<^verbatim>\<open>calcwit.cpp\<close> works on a \<^verbatim>\<open>Circom_Circuit\<close>
  that the compiler emits. Its declarations live in headers; the fields the calculator
  reads are collected here. Arrays are lists, C \<^verbatim>\<open>int\<close> indices are \<open>int\<close>, and a
  read or write outside an array (undefined behaviour in C++) is the explicit error
  \<open>OutOfBounds\<close>.
\<close>

type_synonym u64 = "64 word"

type_synonym BigInt = int

datatype error =
    HashNotFound u64
  | InvalidType
  | SignalAssignedTwice int
  | NotAssignedSignal int
  | OutOfBounds

datatype Circom_EntryType = typeSignal | typeComponent

record Circom_HashEntry =
  hash :: u64
  pos :: int

record Circom_ComponentEntry =
  offset :: int
  sizes :: "int list"
  etype :: Circom_EntryType

text \<open>
  The mutable state of \<^verbatim>\<open>Circom_CalcWit\<close>: the sanity-mode mask, the per-component
  counters and the signal values. \<open>threads\<close> lists the components whose function was
  handed to a detached thread, in the order the threads were started.
\<close>

record calc =
  signalAssigned :: "bool list"
  inputSignalsToTrigger :: "int list"
  signalValues :: "BigInt list"
  threads :: "int list"

text \<open>
  \<open>fn\<close> is the generated function of a component, called as \<^verbatim>\<open>fn(ctx, cIdx)\<close>. It is
  generated code, so it is a parameter: a transformer of the calculator state that may
  fail.
\<close>

record Circom_Component =
  hashTable :: "Circom_HashEntry list"
  entries :: "Circom_ComponentEntry list"
  fn :: "int \<Rightarrow> calc \<Rightarrow> error + calc"
  inputSignals :: int
  newThread :: bool

text \<open>
  \<open>mapIsInput\<close> stands for \<^verbatim>\<open>BITMAP_ISSET(circuit->mapIsInput, sIdx)\<close>: the macro is
  declared in a header, so the test it performs is taken as a predicate on the signal
  index.
\<close>

record Circom_Circuit =
  NSignals :: int
  NComponents :: int
  components :: "Circom_Component list"
  mapIsInput :: "int \<Rightarrow> bool"

definition in_range :: "'a list \<Rightarrow> int \<Rightarrow> bool" where
  "in_range xs i = (0 \<le> i \<and> i < int (length xs))"

definition read_at :: "'a list \<Rightarrow> int \<Rightarrow> error + 'a" where
  "read_at xs i = (if in_range xs i then Inr (xs ! nat i) else Inl OutOfBounds)"

definition write_at :: "'a list \<Rightarrow> int \<Rightarrow> 'a \<Rightarrow> error + 'a list" where
  "write_at xs i v = (if in_range xs i then Inr (xs[nat i := v]) else Inl OutOfBounds)"

section \<open>Symbol lookup\<close>

text \<open>
  The probe loop shared, statement for statement, by the four accessors:
  \<^verbatim>\<open>for (hIdx = int(hash & 0xFF); hash != hashTable[hIdx].hash; hIdx++)
     if (!hashTable[hIdx].hash) throw std::runtime_error("hash not found: " ...);\<close>
  It returns the index at which the loop exits. The index only ever grows by one.
\<close>

function probe :: "Circom_HashEntry list \<Rightarrow> u64 \<Rightarrow> nat \<Rightarrow> error + nat" where
  "probe ht h hIdx =
     (if length ht \<le> hIdx then Inl OutOfBounds
      else if h = hash (ht ! hIdx) then Inr hIdx
      else if hash (ht ! hIdx) = 0 then Inl (HashNotFound h)
      else probe ht h (Suc hIdx))"
  by pat_completeness auto
termination
  by (relation "measure (\<lambda>(ht, h, hIdx). length ht - hIdx)") auto

declare probe.simps [simp del]

definition probe_start :: "u64 \<Rightarrow> nat" where
  "probe_start h = unat (h AND 0xFF)"

definition getSubComponentOffset :: "Circom_Circuit \<Rightarrow> int \<Rightarrow> u64 \<Rightarrow> error + int" where
  "getSubComponentOffset circuit cIdx h =
     (case read_at (components circuit) cIdx of
        Inl e \<Rightarrow> Inl e
      | Inr c \<Rightarrow>
          (case probe (hashTable c) h (probe_start h) of
             Inl e \<Rightarrow> Inl e
           | Inr hIdx \<Rightarrow>
               (case read_at (entries c) (pos (hashTable c ! hIdx)) of
                  Inl e \<Rightarrow> Inl e
                | Inr ent \<Rightarrow>
                    if etype ent \<noteq> typeComponent then Inl InvalidType
                    else Inr (offset ent))))"

definition getSubComponentSizes :: "Circom_Circuit \<Rightarrow> int \<Rightarrow> u64 \<Rightarrow> error + int list" where
  "getSubComponentSizes circuit cIdx h =
     (case read_at (components circuit) cIdx of
        Inl e \<Rightarrow> Inl e
      | Inr c \<Rightarrow>
          (case probe (hashTable c) h (probe_start h) of
             Inl e \<Rightarrow> Inl e
           | Inr hIdx \<Rightarrow>
               (case read_at (entries c) (pos (hashTable c ! hIdx)) of
                  Inl e \<Rightarrow> Inl e
                | Inr ent \<Rightarrow>
                    if etype ent \<noteq> typeComponent then Inl InvalidType
                    else Inr (sizes ent))))"

definition getSignalOffset :: "Circom_Circuit \<Rightarrow> int \<Rightarrow> u64 \<Rightarrow> error + int" where
  "getSignalOffset circuit cIdx h =
     (case read_at (components circuit) cIdx of
        Inl e \<Rightarrow> Inl e
      | Inr c \<Rightarrow>
          (case probe (hashTable c) h (probe_start h) of
             Inl e \<Rightarrow> Inl e
           | Inr hIdx \<Rightarrow>
               (case read_at (entries c) (pos (hashTable c ! hIdx)) of
                  Inl e \<Rightarrow> Inl e
                | Inr ent \<Rightarrow>
                    if etype ent \<noteq> typeSignal then Inl InvalidType
                    else Inr (offset ent))))"

definition getSignalSizes :: "Circom_Circuit \<Rightarrow> int \<Rightarrow> u64 \<Rightarrow> error + int list" where
  "getSignalSizes circuit cIdx h =
     (case read_at (components circuit) cIdx of
        Inl e \<Rightarrow> Inl e
      | Inr c \<Rightarrow>
          (case probe (hashTable c) h (probe_start h) of
             Inl e \<Rightarrow> Inl e
           | Inr hIdx \<Rightarrow>
               (case read_at (entries c) (pos (hashTable c ! hIdx)) of
                  Inl e \<Rightarrow> Inl e
                | Inr ent \<Rightarrow>
                    if etype ent \<noteq> typeSignal then Inl InvalidType
                    else Inr (sizes ent))))"

section \<open>The calculator\<close>

text \<open>
  \<^verbatim>\<open>SANITY_CHECK\<close> is a build flag and \<^verbatim>\<open>NMUTEXES\<close> a compile-time constant of
  a header; both are parameters (\<open>sanity\<close>, \<open>NMUTEXES\<close>) of the operations that depend on
  them. In a release build the mask \<open>signalAssigned\<close> does not exist and is never read.
\<close>

subsection \<open>Triggering a component\<close>

text \<open>
  A component flagged \<open>newThread\<close> gets a detached thread: the caller's view of the state
  only gains the started thread. Otherwise the generated function runs on the spot.
\<close>

definition triggerComponent :: "Circom_Circuit \<Rightarrow> int \<Rightarrow> calc \<Rightarrow> error + calc" where
  "triggerComponent circuit newCIdx s =
     (case read_at (components circuit) newCIdx of
        Inl e \<Rightarrow> Inl e
      | Inr c \<Rightarrow>
          if newThread c then Inr (s\<lparr>threads := threads s @ [newCIdx]\<rparr>)
          else fn c newCIdx s)"

subsection \<open>reset and the constructor\<close>

fun clearAssigned :: "nat list \<Rightarrow> bool list \<Rightarrow> error + bool list" where
  "clearAssigned [] a = Inr a"
| "clearAssigned (i # is) a =
     (case write_at a (int i) False of
        Inl e \<Rightarrow> Inl e
      | Inr a' \<Rightarrow> clearAssigned is a')"

fun reset_loop :: "Circom_Circuit \<Rightarrow> nat list \<Rightarrow> calc \<Rightarrow> error + calc" where
  "reset_loop circuit [] s = Inr s"
| "reset_loop circuit (i # is) s =
     (case read_at (components circuit) (int i) of
        Inl e \<Rightarrow> Inl e
      | Inr c \<Rightarrow>
          (case write_at (inputSignalsToTrigger s) (int i) (inputSignals c) of
             Inl e \<Rightarrow> Inl e
           | Inr p \<Rightarrow>
               let s1 = s\<lparr>inputSignalsToTrigger := p\<rparr> in
               if inputSignalsToTrigger s1 ! i = 0 then
                 (case triggerComponent circuit (int i) s1 of
                    Inl e \<Rightarrow> Inl e
                  | Inr s2 \<Rightarrow> reset_loop circuit is s2)
               else reset_loop circuit is s1))"

text \<open>
  \<^verbatim>\<open>for (int i=1; i<circuit->NComponents; i++) signalAssigned[i] = false;\<close> (sanity
  builds only), then the loop over the components.
\<close>

definition reset :: "Circom_Circuit \<Rightarrow> bool \<Rightarrow> calc \<Rightarrow> error + calc" where
  "reset circuit sanity s =
     (case (if sanity then
              (case clearAssigned [1..<nat (NComponents circuit)] (signalAssigned s) of
                 Inl e \<Rightarrow> Inl e
               | Inr a \<Rightarrow> Inr (s\<lparr>signalAssigned := a\<rparr>))
            else Inr s) of
        Inl e \<Rightarrow> Inl e
      | Inr s1 \<Rightarrow> reset_loop circuit [0..<nat (NComponents circuit)] s1)"

text \<open>
  The constructor. \<^verbatim>\<open>new bool[NSignals]\<close> and \<^verbatim>\<open>new int[NComponents]\<close> leave their
  cells uninitialised: what they hold is the parameters \<open>junkAssigned\<close> and
  \<open>junkTrigger\<close>. \<^verbatim>\<open>mpz_init_set_ui(x, 1)\<close> gives the value 1 and
  \<^verbatim>\<open>mpz_init2(x, 256)\<close> the value 0 (GMP reserves 256 bits, which a value does not
  show). An array length below what the constructor writes is an error.
\<close>

definition Circom_CalcWit ::
  "Circom_Circuit \<Rightarrow> bool \<Rightarrow> (nat \<Rightarrow> bool) \<Rightarrow> (nat \<Rightarrow> int) \<Rightarrow> error + calc" where
  "Circom_CalcWit aCircuit sanity junkAssigned junkTrigger =
     (if NSignals aCircuit < 1 \<or> NComponents aCircuit < 0 then Inl OutOfBounds
      else reset aCircuit sanity
        \<lparr>signalAssigned =
           (if sanity then (map junkAssigned [0..<nat (NSignals aCircuit)])[0 := True] else []),
         inputSignalsToTrigger = map junkTrigger [0..<nat (NComponents aCircuit)],
         signalValues = 1 # replicate (nat (NSignals aCircuit) - 1) 0,
         threads = []\<rparr>)"

subsection \<open>setSignal and finished\<close>

datatype sync = Lock nat | Wait nat | Unlock nat | NotifyAll nat

definition setSignal ::
  "Circom_Circuit \<Rightarrow> bool \<Rightarrow> int \<Rightarrow> int \<Rightarrow> int \<Rightarrow> BigInt \<Rightarrow> calc \<Rightarrow> error + calc" where
  "setSignal circuit sanity currentComponentIdx cIdx sIdx v s =
     (case (if sanity then
              (case read_at (signalAssigned s) sIdx of
                 Inl e \<Rightarrow> Inl e
               | Inr a \<Rightarrow>
                   if a then Inl (SignalAssignedTwice sIdx)
                   else Inr (s\<lparr>signalAssigned := (signalAssigned s)[nat sIdx := True]\<rparr>))
            else Inr s) of
        Inl e \<Rightarrow> Inl e
      | Inr s1 \<Rightarrow>
          (case write_at (signalValues s1) sIdx v of
             Inl e \<Rightarrow> Inl e
           | Inr vs \<Rightarrow>
               let s2 = s1\<lparr>signalValues := vs\<rparr> in
               if mapIsInput circuit sIdx then
                 (case read_at (inputSignalsToTrigger s2) cIdx of
                    Inl e \<Rightarrow> Inl e
                  | Inr n \<Rightarrow>
                      if 0 < n then
                        let s3 = s2\<lparr>inputSignalsToTrigger :=
                                      (inputSignalsToTrigger s2)[nat cIdx := n - 1]\<rparr> in
                        if inputSignalsToTrigger s3 ! nat cIdx = 0
                        then triggerComponent circuit cIdx s3
                        else Inr s3
                      else Inr s2)
               else Inr s2))"

text \<open>
  \<open>finished\<close> writes the counter under the mutex of slot \<^verbatim>\<open>cIdx % NMUTEXES\<close> and then
  wakes every waiter of that slot; the synchronisation calls it makes are returned next
  to the new state.
\<close>

definition finished :: "nat \<Rightarrow> int \<Rightarrow> calc \<Rightarrow> error + calc \<times> sync list" where
  "finished NMUTEXES cIdx s =
     (case write_at (inputSignalsToTrigger s) cIdx (- 1) of
        Inl e \<Rightarrow> Inl e
      | Inr p \<Rightarrow>
          Inr (s\<lparr>inputSignalsToTrigger := p\<rparr>,
               [Lock (nat cIdx mod NMUTEXES), Unlock (nat cIdx mod NMUTEXES),
                NotifyAll (nat cIdx mod NMUTEXES)]))"

subsection \<open>The blocking operations: getSignal and join\<close>

text \<open>
  A waiting thread sees the counters change under it. \<open>env k\<close> is the calculator state
  the calling thread finds at its \<open>k\<close>-th look at the shared arrays: look 0 on entry, and
  one more look each time \<^verbatim>\<open>wait\<close> returns or the next statement reads shared memory.
  The loop \<^verbatim>\<open>while (inputSignalsToTrigger[cIdx] != -1) cvs[..].wait(lk);\<close> returns the
  look at which it leaves; \<open>None\<close> is a thread that waits for ever.
\<close>

partial_function (option) await :: "(nat \<Rightarrow> calc) \<Rightarrow> int \<Rightarrow> nat \<Rightarrow> (error + nat) option" where
  "await env cIdx k =
     (case read_at (inputSignalsToTrigger (env k)) cIdx of
        Inl e \<Rightarrow> Some (Inl e)
      | Inr n \<Rightarrow> if n \<noteq> - 1 then await env cIdx (Suc k) else Some (Inr k))"

text \<open>The tail of \<open>getSignal\<close>: the sanity check and \<^verbatim>\<open>mpz_set(*value, signalValues[sIdx])\<close>.\<close>

definition copy_out :: "bool \<Rightarrow> calc \<Rightarrow> int \<Rightarrow> error + BigInt" where
  "copy_out sanity s sIdx =
     (case (if sanity then
              (case read_at (signalAssigned s) sIdx of
                 Inl e \<Rightarrow> Inl e
               | Inr a \<Rightarrow> if a = False then Inl (NotAssignedSignal sIdx) else Inr ())
            else Inr ()) of
        Inl e \<Rightarrow> Inl e
      | Inr _ \<Rightarrow> read_at (signalValues s) sIdx)"

definition getSignal ::
  "Circom_Circuit \<Rightarrow> bool \<Rightarrow> nat \<Rightarrow> (nat \<Rightarrow> calc) \<Rightarrow> int \<Rightarrow> int \<Rightarrow> int
     \<Rightarrow> (error + BigInt \<times> sync list) option" where
  "getSignal circuit sanity NMUTEXES env currentComponentIdx cIdx sIdx =
     (case read_at (components circuit) cIdx of
        Inl e \<Rightarrow> Some (Inl e)
      | Inr c \<Rightarrow>
          if newThread c \<and> currentComponentIdx \<noteq> cIdx then
            (case await env cIdx 0 of
               None \<Rightarrow> None
             | Some (Inl e) \<Rightarrow> Some (Inl e)
             | Some (Inr k) \<Rightarrow>
                 (case copy_out sanity (env (Suc k)) sIdx of
                    Inl e \<Rightarrow> Some (Inl e)
                  | Inr v \<Rightarrow>
                      Some (Inr (v, Lock (nat cIdx mod NMUTEXES)
                                    # replicate k (Wait (nat cIdx mod NMUTEXES))
                                    @ [Unlock (nat cIdx mod NMUTEXES)]))))
          else
            (case copy_out sanity (env 0) sIdx of
               Inl e \<Rightarrow> Some (Inl e)
             | Inr v \<Rightarrow> Some (Inr (v, []))))"

text \<open>
  \<open>join\<close> takes the components in the order of the loop. It returns the number of looks
  it took and its synchronisation calls; it has no write to any calculator array.
\<close>

fun join_loop ::
  "nat \<Rightarrow> (nat \<Rightarrow> calc) \<Rightarrow> nat list \<Rightarrow> nat \<Rightarrow> (error + nat \<times> sync list) option" where
  "join_loop NMUTEXES env [] k = Some (Inr (k, []))"
| "join_loop NMUTEXES env (i # is) k =
     (case await env (int i) k of
        None \<Rightarrow> None
      | Some (Inl e) \<Rightarrow> Some (Inl e)
      | Some (Inr k') \<Rightarrow>
          (case join_loop NMUTEXES env is (Suc k') of
             None \<Rightarrow> None
           | Some (Inl e) \<Rightarrow> Some (Inl e)
           | Some (Inr (k'', evs)) \<Rightarrow>
               Some (Inr (k'', Lock (i mod NMUTEXES)
                               # replicate (k' - k) (Wait (i mod NMUTEXES))
                               @ Unlock (i mod NMUTEXES) # evs))))"

definition join :: "Circom_Circuit \<Rightarrow> nat \<Rightarrow> (nat \<Rightarrow> calc) \<Rightarrow> (error + nat \<times> sync list) option" where
  "join circuit NMUTEXES env = join_loop NMUTEXES env [0..<nat (NComponents circuit)] 0"

subsection \<open>Sequences of operations\<close>

text \<open>
  A driver that calls the operations one after the other, alone on the calculator: the
  state does not change while one of its calls waits.
\<close>

datatype op =
    SetSignal int int int BigInt
  | GetSignal int int int
  | Reset
  | Finished int
  | TriggerComponent int
  | Join

fun apply_op :: "Circom_Circuit \<Rightarrow> bool \<Rightarrow> nat \<Rightarrow> op \<Rightarrow> calc \<Rightarrow> (error + calc) option" where
  "apply_op circuit sanity NMUTEXES (SetSignal cur c i v) s =
     Some (setSignal circuit sanity cur c i v s)"
| "apply_op circuit sanity NMUTEXES (GetSignal cur c i) s =
     (case getSignal circuit sanity NMUTEXES (\<lambda>_. s) cur c i of
        None \<Rightarrow> None
      | Some (Inl e) \<Rightarrow> Some (Inl e)
      | Some (Inr _) \<Rightarrow> Some (Inr s))"
| "apply_op circuit sanity NMUTEXES Reset s = Some (reset circuit sanity s)"
| "apply_op circuit sanity NMUTEXES (Finished c) s =
     (case finished NMUTEXES c s of
        Inl e \<Rightarrow> Some (Inl e)
      | Inr (s', _) \<Rightarrow> Some (Inr s'))"
| "apply_op circuit sanity NMUTEXES (TriggerComponent c) s =
     Some (triggerComponent circuit c s)"
| "apply_op circuit sanity NMUTEXES Join s =
     (case join circuit NMUTEXES (\<lambda>_. s) of
        None \<Rightarrow> None
      | Some (Inl e) \<Rightarrow> Some (Inl e)
      | Some (Inr _) \<Rightarrow> Some (Inr s))"

fun run :: "Circom_Circuit \<Rightarrow> bool \<Rightarrow> nat \<Rightarrow> op list \<Rightarrow> calc \<Rightarrow> (error + calc) option" where
  "run circuit sanity NMUTEXES [] s = Some (Inr s)"
| "run circuit sanity NMUTEXES (x # xs) s =
     (case apply_op circuit sanity NMUTEXES x s of
        None \<Rightarrow> None
      | Some (Inl e) \<Rightarrow> Some (Inl e)
      | Some (Inr s') \<Rightarrow> run circuit sanity NMUTEXES xs s')"

section \<open>Two small circuits\<close>

text \<open>
  A hash table of 256 slots in which two names share the low byte \<open>0x2A\<close>: the first
  sits in slot 42, the second in the next slot.
\<close>

definition ex_table :: "Circom_HashEntry list" where
  "ex_table = (replicate 256 \<lparr>hash = 0, pos = 0\<rparr>)
     [42 := \<lparr>hash = 0x12A, pos = 0\<rparr>, 43 := \<lparr>hash = 0x22A, pos = 1\<rparr>]"

definition ex_entries :: "Circom_ComponentEntry list" where
  "ex_entries =
     [\<lparr>offset = 1, sizes = [2], etype = typeSignal\<rparr>,
      \<lparr>offset = 1, sizes = [], etype = typeComponent\<rparr>]"

text \<open>
  An adder: one component, run in place, with the input signals 1 and 2; its function
  writes their sum modulo 101 to signal 3 and reports that it has finished.
\<close>

definition adder_fn :: "int \<Rightarrow> calc \<Rightarrow> error + calc" where
  "adder_fn i s =
     Inr (s\<lparr>signalValues := (signalValues s)[3 := (signalValues s ! 1 + signalValues s ! 2) mod 101],
            inputSignalsToTrigger := (inputSignalsToTrigger s)[nat i := - 1]\<rparr>)"

definition adder :: Circom_Circuit where
  "adder =
     \<lparr>NSignals = 4, NComponents = 1,
      components =
        [\<lparr>hashTable = ex_table, entries = ex_entries, fn = adder_fn,
          inputSignals = 2, newThread = False\<rparr>],
      mapIsInput = (\<lambda>i. i = 1 \<or> i = 2)\<rparr>"

text \<open>
  Two branches, each on a thread of its own, with one input signal each (signals 1 and 2).
\<close>

definition branch_fn :: "nat \<Rightarrow> nat \<Rightarrow> int \<Rightarrow> int \<Rightarrow> calc \<Rightarrow> error + calc" where
  "branch_fn src dst m i s =
     Inr (s\<lparr>signalValues := (signalValues s)[dst := (signalValues s ! src * m) mod 17],
            inputSignalsToTrigger := (inputSignalsToTrigger s)[nat i := - 1]\<rparr>)"

definition branches :: Circom_Circuit where
  "branches =
     \<lparr>NSignals = 5, NComponents = 2,
      components =
        [\<lparr>hashTable = ex_table, entries = ex_entries, fn = branch_fn 1 3 2,
          inputSignals = 1, newThread = True\<rparr>,
         \<lparr>hashTable = ex_table, entries = ex_entries, fn = branch_fn 2 4 3,
          inputSignals = 1, newThread = True\<rparr>],
      mapIsInput = (\<lambda>i. i = 1 \<or> i = 2)\<rparr>"

text \<open>A table of 256 slots whose last slot is taken and whose first slot is free.\<close>

definition full_tail :: "Circom_HashEntry list" where
  "full_tail = (replicate 256 \<lparr>hash = 0, pos = 0\<rparr>)[255 := \<lparr>hash = 0x1FF, pos = 0\<rparr>]"

text \<open>
  States of the adder in a release build: as constructed, with signal 1 set, and after
  its function has run; and the last one in a sanity build.
\<close>

definition adder_start :: calc where
  "adder_start =
     \<lparr>signalAssigned = [], inputSignalsToTrigger = [2], signalValues = [1, 0, 0, 0],
      threads = []\<rparr>"

definition adder_mid :: calc where
  "adder_mid =
     \<lparr>signalAssigned = [], inputSignalsToTrigger = [1], signalValues = [1, 50, 0, 0],
      threads = []\<rparr>"

definition adder_done :: calc where
  "adder_done =
     \<lparr>signalAssigned = [], inputSignalsToTrigger = [- 1], signalValues = [1, 50, 60, 9],
      threads = []\<rparr>"

definition adder_done_sanity :: calc where
  "adder_done_sanity = adder_done\<lparr>signalAssigned := [True, True, True, True]\<rparr>"

text \<open>
  A schedule of the two branches as a thread may find it: both functions running at the
  first two looks, the first branch finished from look 2 on, both from look 4 on.
\<close>

definition branches_running :: calc where
  "branches_running =
     \<lparr>signalAssigned = [], inputSignalsToTrigger = [0, 0], signalValues = [1, 5, 4, 0, 0],
      threads = [0, 1]\<rparr>"

definition branches_half :: calc where
  "branches_half =
     \<lparr>signalAssigned = [], inputSignalsToTrigger = [- 1, 0], signalValues = [1, 5, 4, 10, 0],
      threads = [0, 1]\<rparr>"

definition branches_done :: calc where
  "branches_done =
     \<lparr>signalAssigned = [], inputSignalsToTrigger = [- 1, - 1],
      signalValues = [1, 5, 4, 10, 12], threads = [0, 1]\<rparr>"

definition schedule :: "nat \<Rightarrow> calc" where
  "schedule k = (if k < 2 then branches_running else if k < 4 then branches_half
                 else branches_done)"

text \<open>
  The same schedule in a sanity build: signal 3 is marked assigned when the first branch
  has written it, signal 4 when the second has.
\<close>

definition schedule_sanity :: "nat \<Rightarrow> calc" where
  "schedule_sanity k =
     (schedule k)\<lparr>signalAssigned :=
        (if k < 2 then [True, True, True, False, False]
         else if k < 4 then [True, True, True, True, False]
         else [True, True, True, True, True])\<rparr>"

section \<open>Hypotheses on schedules\<close>

text \<open>
  No \<open>reset\<close> happens while a thread waits: a counter of the first \<open>n\<close> components that
  is \<open>-1\<close> at one look is \<open>-1\<close> at the next.
\<close>

definition stays_finished :: "(nat \<Rightarrow> calc) \<Rightarrow> nat \<Rightarrow> bool" where
  "stays_finished env n =
     (\<forall>k c. c < n \<and> inputSignalsToTrigger (env k) ! c = - 1
            \<longrightarrow> inputSignalsToTrigger (env (Suc k)) ! c = - 1)"

text \<open>
  The synchronisation calls of a \<open>join\<close> over the components \<open>cs\<close> that waits \<open>ws ! i\<close>
  times for the \<open>i\<close>-th of them.
\<close>

definition join_calls :: "nat \<Rightarrow> nat list \<Rightarrow> nat list \<Rightarrow> sync list" where
  "join_calls NMUTEXES cs ws =
     concat (map (\<lambda>(c, w). Lock (c mod NMUTEXES) # replicate w (Wait (c mod NMUTEXES))
                              @ [Unlock (c mod NMUTEXES)]) (zip cs ws))"

section \<open>Hypotheses on the generated functions\<close>

text \<open>
  A component's function is generated code that reaches the calculator through its
  operations. What a property needs of it is stated as a hypothesis on \<open>fn\<close>: that a
  function which returns keeps a state predicate \<open>I\<close>.
\<close>

definition fn_keeps :: "(calc \<Rightarrow> bool) \<Rightarrow> Circom_Circuit \<Rightarrow> bool" where
  "fn_keeps I circuit =
     (\<forall>c\<in>set (components circuit). \<forall>i s s'. I s \<and> fn c i s = Inr s' \<longrightarrow> I s')"

text \<open>
  Signal 0 exists and holds 1 and, in a sanity build, is marked assigned.
\<close>

definition one_kept :: "bool \<Rightarrow> calc \<Rightarrow> bool" where
  "one_kept sanity s =
     (0 < length (signalValues s) \<and> signalValues s ! 0 = 1
      \<and> (sanity \<longrightarrow> 0 < length (signalAssigned s) \<and> signalAssigned s ! 0))"


text \<open>
  What \<open>setSignal\<close> and \<open>finished\<close> can do to the counters, taken together over any number
  of calls: each counter is as before, or is \<open>-1\<close>, or is smaller than before and not
  negative.
\<close>

definition lowers :: "calc \<Rightarrow> calc \<Rightarrow> bool" where
  "lowers s s' =
     (length (inputSignalsToTrigger s') = length (inputSignalsToTrigger s)
      \<and> (\<forall>c. c < length (inputSignalsToTrigger s) \<longrightarrow>
             inputSignalsToTrigger s' ! c = inputSignalsToTrigger s ! c
           \<or> inputSignalsToTrigger s' ! c = - 1
           \<or> (0 \<le> inputSignalsToTrigger s' ! c
                \<and> inputSignalsToTrigger s' ! c < inputSignalsToTrigger s ! c)))"

text \<open>
  The counter of component \<open>c\<close> exists and lies between \<open>-1\<close> and the component's number
  of input signals.
\<close>

definition within_inputs :: "Circom_Circuit \<Rightarrow> calc \<Rightarrow> nat \<Rightarrow> bool" where
  "within_inputs circuit s c =
     (c < length (inputSignalsToTrigger s) \<and> c < length (components circuit)
      \<and> - 1 \<le> inputSignalsToTrigger s ! c
      \<and> inputSignalsToTrigger s ! c \<le> inputSignals (components circuit ! c))"

definition fn_lowers :: "Circom_Circuit \<Rightarrow> bool" where
  "fn_lowers circuit =
     (\<forall>c\<in>set (components circuit). \<forall>i s s'. fn c i s = Inr s' \<longrightarrow> lowers s s')"

text \<open>
  The operation \<open>x\<close>, started in state \<open>s\<close>, calls a component's function in place:
  a trigger of a component that is not flagged \<open>newThread\<close>, directly, by the
  \<open>setSignal\<close> that takes its counter from 1 to 0, or by \<open>reset\<close> for a component
  without inputs.
\<close>

fun runs_in_place :: "Circom_Circuit \<Rightarrow> op \<Rightarrow> calc \<Rightarrow> bool" where
  "runs_in_place circuit (TriggerComponent c) s =
     (in_range (components circuit) c \<and> \<not> newThread (components circuit ! nat c))"
| "runs_in_place circuit (SetSignal cur c i v) s =
     (mapIsInput circuit i \<and> in_range (inputSignalsToTrigger s) c
      \<and> inputSignalsToTrigger s ! nat c = 1
      \<and> in_range (components circuit) c \<and> \<not> newThread (components circuit ! nat c))"
| "runs_in_place circuit Reset s =
     (\<exists>c\<in>set (take (nat (NComponents circuit)) (components circuit)).
         inputSignals c = 0 \<and> \<not> newThread c)"
| "runs_in_place circuit (GetSignal cur c i) s = False"
| "runs_in_place circuit (Finished c) s = False"
| "runs_in_place circuit Join s = False"

declare await.simps [code]

section \<open>Array accesses\<close>

lemma in_range_nat: "in_range xs i \<Longrightarrow> nat i < length xs"
  by (auto simp: in_range_def)

lemma in_range_int [simp]: "in_range xs (int i) = (i < length xs)"
  by (simp add: in_range_def)

section \<open>Properties of the symbol lookup\<close>

lemma probe_start_less: "probe_start h < 256"
proof -
  have "h AND 0xFF \<le> 0xFF"
    by (rule word_and_le1)
  then have "unat (h AND 0xFF) \<le> unat (0xFF :: u64)"
    by (simp add: word_le_nat_alt)
  then show ?thesis
    by (simp add: probe_start_def)
qed

lemma probe_stop:
  assumes "k \<le> j" and "j < length ht"
    and "\<forall>i. k \<le> i \<and> i < j \<longrightarrow> hash (ht ! i) \<noteq> h \<and> hash (ht ! i) \<noteq> 0"
    and "hash (ht ! j) = h \<or> hash (ht ! j) = 0"
  shows "probe ht h k = (if hash (ht ! j) = h then Inr j else Inl (HashNotFound h))"
  using assms
proof (induction "j - k" arbitrary: k)
  case 0
  then have "k = j" by simp
  with 0 show ?case by (auto simp: probe.simps [of ht h j])
next
  case (Suc n)
  then have lt: "k < j" by simp
  with Suc.prems have here: "hash (ht ! k) \<noteq> h" "hash (ht ! k) \<noteq> 0" "k < length ht"
    by auto
  have "probe ht h (Suc k) = (if hash (ht ! j) = h then Inr j else Inl (HashNotFound h))"
    using Suc.hyps(2) Suc.prems lt by (intro Suc.hyps(1)) auto
  with here show ?case
    by (simp add: probe.simps [of ht h k])
qed

lemma probe_past_end:
  assumes "\<forall>i. k \<le> i \<and> i < length ht \<longrightarrow> hash (ht ! i) \<noteq> h \<and> hash (ht ! i) \<noteq> 0"
  shows "probe ht h k = Inl OutOfBounds"
  using assms
proof (induction "length ht - k" arbitrary: k)
  case 0
  then show ?case by (simp add: probe.simps [of ht h k])
next
  case (Suc n)
  then have "k < length ht" by simp
  with Suc.prems have here: "hash (ht ! k) \<noteq> h" "hash (ht ! k) \<noteq> 0" by auto
  have "probe ht h (Suc k) = Inl OutOfBounds"
    using Suc.hyps(2) Suc.prems by (intro Suc.hyps(1)) auto
  with here \<open>k < length ht\<close> show ?case
    by (simp add: probe.simps [of ht h k])
qed

lemma probe_Inr:
  "probe ht h k = Inr j \<Longrightarrow> k \<le> j \<and> j < length ht \<and> hash (ht ! j) = h
     \<and> (\<forall>i. k \<le> i \<and> i < j \<longrightarrow> hash (ht ! i) \<noteq> h \<and> hash (ht ! i) \<noteq> 0)"
proof (induction ht h k rule: probe.induct)
  case (1 ht h hIdx)
  show ?case
  proof (cases "length ht \<le> hIdx \<or> h = hash (ht ! hIdx) \<or> hash (ht ! hIdx) = 0")
    case True
    with "1.prems" show ?thesis
      by (auto simp: probe.simps [of ht h hIdx] split: if_splits)
  next
    case False
    with "1.prems" have "probe ht h (Suc hIdx) = Inr j"
      by (simp add: probe.simps [of ht h hIdx])
    with False "1.IH" have IH: "Suc hIdx \<le> j \<and> j < length ht \<and> hash (ht ! j) = h
       \<and> (\<forall>i. Suc hIdx \<le> i \<and> i < j \<longrightarrow> hash (ht ! i) \<noteq> h \<and> hash (ht ! i) \<noteq> 0)"
      by auto
    have "\<And>i. hIdx \<le> i \<Longrightarrow> i < j \<Longrightarrow> hash (ht ! i) \<noteq> h \<and> hash (ht ! i) \<noteq> 0"
    proof -
      fix i assume "hIdx \<le> i" "i < j"
      show "hash (ht ! i) \<noteq> h \<and> hash (ht ! i) \<noteq> 0"
      proof (cases "i = hIdx")
        case True with False show ?thesis by auto
      next
        case False with \<open>hIdx \<le> i\<close> \<open>i < j\<close> IH show ?thesis by auto
      qed
    qed
    with IH show ?thesis by auto
  qed
qed

text \<open>
  Claim C1, as the code has it. Take a component index \<open>cIdx\<close> and a key \<open>h\<close>, and let
  \<open>j\<close> be the first slot at or after \<open>h AND 0xFF\<close> whose stored hash is the key or zero
  (every slot from \<open>h AND 0xFF\<close> up to \<open>j\<close> holds another, non-zero hash). The match is
  tested first: if slot \<open>j\<close> holds the key, each accessor reads \<open>entries[pos]\<close> and returns
  its \<open>offset\<close> (respectively \<open>sizes\<close>), or fails with \<open>InvalidType\<close> when the entry's type
  is not the one the accessor expects (Signal for \<open>getSignalOffset\<close> and \<open>getSignalSizes\<close>,
  Component for the other two). Only if slot \<open>j\<close> does not hold the key, being then a
  zero-hash slot, do the accessors fail with \<open>HashNotFound h\<close>. A key of 0 therefore
  matches a free slot instead of being reported as not found.
\<close>

theorem lookup_by_probe:
  assumes comp: "in_range (components circuit) cIdx"
    and start: "unat (h AND 0xFF) \<le> j"
    and inside: "j < length (hashTable (components circuit ! nat cIdx))"
    and passed: "\<forall>i. unat (h AND 0xFF) \<le> i \<and> i < j \<longrightarrow>
                   hash (hashTable (components circuit ! nat cIdx) ! i) \<noteq> h
                 \<and> hash (hashTable (components circuit ! nat cIdx) ! i) \<noteq> 0"
    and stop: "hash (hashTable (components circuit ! nat cIdx) ! j) = h
             \<or> hash (hashTable (components circuit ! nat cIdx) ! j) = 0"
  shows "let c = components circuit ! nat cIdx;
             slot = hashTable c ! j;
             ent = entries c ! nat (pos slot)
         in getSignalOffset circuit cIdx h =
              (if hash slot = h then
                 (if \<not> in_range (entries c) (pos slot) then Inl OutOfBounds
                  else if etype ent \<noteq> typeSignal then Inl InvalidType
                  else Inr (offset ent))
               else Inl (HashNotFound h))
          \<and> getSignalSizes circuit cIdx h =
              (if hash slot = h then
                 (if \<not> in_range (entries c) (pos slot) then Inl OutOfBounds
                  else if etype ent \<noteq> typeSignal then Inl InvalidType
                  else Inr (sizes ent))
               else Inl (HashNotFound h))
          \<and> getSubComponentOffset circuit cIdx h =
              (if hash slot = h then
                 (if \<not> in_range (entries c) (pos slot) then Inl OutOfBounds
                  else if etype ent \<noteq> typeComponent then Inl InvalidType
                  else Inr (offset ent))
               else Inl (HashNotFound h))
          \<and> getSubComponentSizes circuit cIdx h =
              (if hash slot = h then
                 (if \<not> in_range (entries c) (pos slot) then Inl OutOfBounds
                  else if etype ent \<noteq> typeComponent then Inl InvalidType
                  else Inr (sizes ent))
               else Inl (HashNotFound h))"
proof -
  let ?c = "components circuit ! nat cIdx"
  have p: "probe (hashTable ?c) h (probe_start h) =
             (if hash (hashTable ?c ! j) = h then Inr j else Inl (HashNotFound h))"
    using start inside passed stop unfolding probe_start_def by (rule probe_stop)
  have c: "read_at (components circuit) cIdx = Inr ?c"
    using comp by (simp add: read_at_def)
  show ?thesis
  proof (cases "hash (hashTable ?c ! j) = h")
    case True
    with p have "probe (hashTable ?c) h (probe_start h) = Inr j" by simp
    with True show ?thesis
      by (simp add: Let_def getSignalOffset_def getSignalSizes_def getSubComponentOffset_def
          getSubComponentSizes_def c read_at_def comp)
  next
    case False
    with p have "probe (hashTable ?c) h (probe_start h) = Inl (HashNotFound h)" by simp
    with False show ?thesis
      by (simp add: Let_def getSignalOffset_def getSignalSizes_def getSubComponentOffset_def
          getSubComponentSizes_def c)
  qed
qed

text \<open>
  In the adder's table the key \<open>0x22A\<close> collides with \<open>0x12A\<close> in slot 42 and is found
  one slot further, where it names a sub-component; \<open>0x32A\<close> has the same low byte and
  is absent: the probe passes slots 42 and 43 and stops at the free slot 44.
\<close>

theorem lookup_by_probe_witness:
  "getSignalOffset adder 0 0x22A = Inl InvalidType
   \<and> getSignalSizes adder 0 0x22A = Inl InvalidType
   \<and> getSubComponentOffset adder 0 0x22A = Inr 1
   \<and> getSubComponentSizes adder 0 0x22A = Inr []
   \<and> getSignalOffset adder 0 0x32A = Inl (HashNotFound 0x32A)"
proof -
  have c: "in_range (components adder) 0"
    by (simp add: adder_def in_range_def)
  have t: "hashTable (components adder ! 0) = ex_table"
    by (simp add: adder_def)
  have s: "unat ((0x22A :: u64) AND 0xFF) \<le> 43" "unat ((0x32A :: u64) AND 0xFF) \<le> 44"
    by simp_all
  have l: "43 < length (hashTable (components adder ! nat 0))"
    "44 < length (hashTable (components adder ! nat 0))"
    by (simp_all add: t ex_table_def)
  have p1: "\<forall>i. unat ((0x22A :: u64) AND 0xFF) \<le> i \<and> i < 43 \<longrightarrow>
               hash (hashTable (components adder ! nat 0) ! i) \<noteq> 0x22A
             \<and> hash (hashTable (components adder ! nat 0) ! i) \<noteq> 0"
  proof (intro allI impI)
    fix i :: nat assume "unat ((0x22A :: u64) AND 0xFF) \<le> i \<and> i < 43"
    then have "i = 42" by simp
    then show "hash (hashTable (components adder ! nat 0) ! i) \<noteq> 0x22A
             \<and> hash (hashTable (components adder ! nat 0) ! i) \<noteq> 0"
      by (simp add: t ex_table_def)
  qed
  have p2: "\<forall>i. unat ((0x32A :: u64) AND 0xFF) \<le> i \<and> i < 44 \<longrightarrow>
               hash (hashTable (components adder ! nat 0) ! i) \<noteq> 0x32A
             \<and> hash (hashTable (components adder ! nat 0) ! i) \<noteq> 0"
  proof (intro allI impI)
    fix i :: nat assume "unat ((0x32A :: u64) AND 0xFF) \<le> i \<and> i < 44"
    then have "i = 42 \<or> i = 43" by auto
    then show "hash (hashTable (components adder ! nat 0) ! i) \<noteq> 0x32A
             \<and> hash (hashTable (components adder ! nat 0) ! i) \<noteq> 0"
      by (auto simp: t ex_table_def)
  qed
  have e1: "hash (hashTable (components adder ! nat 0) ! 43) = 0x22A
          \<or> hash (hashTable (components adder ! nat 0) ! 43) = 0"
    and e2: "hash (hashTable (components adder ! nat 0) ! 44) = 0x32A
          \<or> hash (hashTable (components adder ! nat 0) ! 44) = 0"
    by (simp_all add: t ex_table_def)
  show ?thesis
    using lookup_by_probe [OF c s(1) l(1) p1 e1] lookup_by_probe [OF c s(2) l(2) p2 e2]
    by (simp add: Let_def adder_def ex_table_def ex_entries_def in_range_def)
qed

text \<open>
  The claim as written fails for the key 0: the probe starts at slot 0 of the adder's
  table, whose stored hash is zero, and the accessor returns the offset of the entry
  that the free slot points to instead of raising the not-found error.
\<close>

theorem lookup_zero_key_counterexample:
  "probe_start 0 = 0
   \<and> hash (hashTable (components adder ! 0) ! 0) = 0
   \<and> getSignalOffset adder 0 0 = Inr 1
   \<and> getSignalOffset adder 0 0 \<noteq> Inl (HashNotFound 0)"
  by (simp add: adder_def ex_table_def ex_entries_def probe_start_def probe.simps
      getSignalOffset_def read_at_def in_range_def)

text \<open>
  Claim C2, as the code has it. The probe index never wraps: it starts at \<open>h AND 0xFF\<close>
  and only grows. If some slot from there to the end of the table holds the key or a
  zero hash, the probe stops at the first such slot, so every access is inside the
  table; if there is none, the probe runs past the end of the table (an access outside
  it). An index that the probe returns is never below its start.
\<close>

theorem probe_no_wrap:
  "probe ht h (probe_start h) =
     (if \<exists>j. probe_start h \<le> j \<and> j < length ht \<and> (hash (ht ! j) = h \<or> hash (ht ! j) = 0)
      then (let j = (LEAST j. probe_start h \<le> j \<and> (hash (ht ! j) = h \<or> hash (ht ! j) = 0))
            in if hash (ht ! j) = h then Inr j else Inl (HashNotFound h))
      else Inl OutOfBounds)
   \<and> (\<forall>j. probe ht h (probe_start h) = Inr j \<longrightarrow> probe_start h \<le> j \<and> j < length ht)"
proof (intro conjI allI impI)
  let ?P = "\<lambda>j. probe_start h \<le> j \<and> (hash (ht ! j) = h \<or> hash (ht ! j) = 0)"
  show "probe ht h (probe_start h) =
     (if \<exists>j. probe_start h \<le> j \<and> j < length ht \<and> (hash (ht ! j) = h \<or> hash (ht ! j) = 0)
      then (let j = (LEAST j. ?P j)
            in if hash (ht ! j) = h then Inr j else Inl (HashNotFound h))
      else Inl OutOfBounds)"
  proof (cases "\<exists>j. probe_start h \<le> j \<and> j < length ht \<and> (hash (ht ! j) = h \<or> hash (ht ! j) = 0)")
    case True
    then obtain j0 where j0: "?P j0" "j0 < length ht" by auto
    define j where "j = (LEAST j. ?P j)"
    have Pj: "?P j" unfolding j_def using j0(1) by (rule LeastI)
    have "j \<le> j0" unfolding j_def using j0(1) by (rule Least_le)
    with j0 have jl: "j < length ht" by simp
    have before: "\<forall>i. probe_start h \<le> i \<and> i < j \<longrightarrow> hash (ht ! i) \<noteq> h \<and> hash (ht ! i) \<noteq> 0"
    proof (intro allI impI)
      fix i assume i: "probe_start h \<le> i \<and> i < j"
      then have "\<not> ?P i" unfolding j_def using not_less_Least by blast
      with i show "hash (ht ! i) \<noteq> h \<and> hash (ht ! i) \<noteq> 0" by auto
    qed
    have "probe ht h (probe_start h) = (if hash (ht ! j) = h then Inr j else Inl (HashNotFound h))"
      using Pj jl before by (intro probe_stop) auto
    with True show ?thesis by (simp add: j_def Let_def)
  next
    case False
    then have "probe ht h (probe_start h) = Inl OutOfBounds"
      by (intro probe_past_end) auto
    then show ?thesis by (simp only: if_not_P [OF False])
  qed
next
  fix j assume "probe ht h (probe_start h) = Inr j"
  then show "probe_start h \<le> j" "j < length ht"
    using probe_Inr by blast+
qed

text \<open>
  In the adder's table the probe for \<open>0x22A\<close> starts at slot 42 and returns slot 43, an
  index at or after its start and inside the 256 slots.
\<close>

theorem probe_no_wrap_witness:
  "probe ex_table 0x22A (probe_start 0x22A) = Inr 43
   \<and> probe_start 0x22A \<le> 43 \<and> 43 < length ex_table"
  using probe_no_wrap [of ex_table "0x22A"]
  by (simp add: ex_table_def probe_start_def probe.simps)

text \<open>
  The claim as written fails on a table of 256 slots whose slot 255 holds another name
  and whose slot 0 is free: for a key with low byte \<open>0xFF\<close> the probe does not come back
  to slot 0, it leaves the table at index 256.
\<close>

theorem probe_wrap_counterexample:
  "length full_tail = 256
   \<and> probe_start 0x2FF = 255
   \<and> hash (full_tail ! 255) = 0x1FF
   \<and> hash (full_tail ! 0) = 0
   \<and> probe full_tail 0x2FF (probe_start 0x2FF) = Inl OutOfBounds"
  by (simp add: full_tail_def probe_start_def probe.simps)

section \<open>finished\<close>

text \<open>
  Claim C10. For every component index \<open>cIdx\<close> (an index into the counter array),
  \<open>finished cIdx\<close> returns normally and leaves the counter of \<open>cIdx\<close> at \<open>-1\<close>, whatever
  the counter was before and whether or not the component's function ever ran: the
  state \<open>s\<close> is arbitrary. Every other counter, every signal value, the sanity mask and
  the started threads are as before.
\<close>

theorem finished_sets_minus_one:
  assumes "in_range (inputSignalsToTrigger s) cIdx"
  shows "case finished NMUTEXES cIdx s of
           Inl e \<Rightarrow> False
         | Inr (s', evs) \<Rightarrow>
             inputSignalsToTrigger s' ! nat cIdx = - 1
           \<and> length (inputSignalsToTrigger s') = length (inputSignalsToTrigger s)
           \<and> (\<forall>c'. c' \<noteq> nat cIdx \<longrightarrow>
                  inputSignalsToTrigger s' ! c' = inputSignalsToTrigger s ! c')
           \<and> signalValues s' = signalValues s
           \<and> signalAssigned s' = signalAssigned s
           \<and> threads s' = threads s"
  using assms in_range_nat [OF assms] by (simp add: finished_def write_at_def)

text \<open>
  The adder with one of its two inputs still outstanding (counter 1, function never
  run): \<open>finished 0\<close> puts the counter at \<open>-1\<close> all the same and keeps the signals.
\<close>

theorem finished_sets_minus_one_witness:
  "in_range (inputSignalsToTrigger adder_mid) 0
   \<and> (case finished 64 0 adder_mid of
        Inl e \<Rightarrow> False
      | Inr (s', evs) \<Rightarrow>
          inputSignalsToTrigger s' = [- 1] \<and> signalValues s' = [1, 50, 0, 0])"
  using finished_sets_minus_one [of adder_mid 0 64]
  by (simp add: adder_mid_def in_range_def finished_def write_at_def)

section \<open>setSignal\<close>

text \<open>
  Claim C4. Take a call \<open>setSignal currentComponent owningComponent sIdx value\<close> whose
  indices are inside their arrays and, in a sanity build, whose signal is not yet marked
  assigned (otherwise the call aborts before any store). Let \<open>n\<close> be the counter of the
  owning component before the call. The call stores the value into \<open>signalValues[sIdx]\<close>.
  The counter of the owning component becomes \<open>n - 1\<close> if the input bit of \<open>sIdx\<close> is set
  and \<open>0 < n\<close>, and the counter array is untouched otherwise; no other component's
  counter changes. With \<open>s'\<close> the state after these writes, the call ends in exactly one
  \<open>triggerComponent owningComponent\<close> on \<open>s'\<close> if the counter was decremented to 0, and
  returns \<open>s'\<close> without triggering anything otherwise. That one trigger starts one thread
  or makes one call of the component's function.
\<close>

theorem setSignal_effect:
  assumes sIdx: "in_range (signalValues s) sIdx"
    and cIdx: "mapIsInput circuit sIdx \<longrightarrow> in_range (inputSignalsToTrigger s) cIdx"
    and mask: "sanity \<longrightarrow> in_range (signalAssigned s) sIdx \<and> \<not> signalAssigned s ! nat sIdx"
  shows "let n = inputSignalsToTrigger s ! nat cIdx;
             counted = (mapIsInput circuit sIdx \<and> 0 < n);
             s' = s\<lparr>signalAssigned :=
                      (if sanity then (signalAssigned s)[nat sIdx := True] else signalAssigned s),
                    signalValues := (signalValues s)[nat sIdx := v],
                    inputSignalsToTrigger :=
                      (if counted then (inputSignalsToTrigger s)[nat cIdx := n - 1]
                       else inputSignalsToTrigger s)\<rparr>
         in signalValues s' ! nat sIdx = v
          \<and> (counted \<longrightarrow> inputSignalsToTrigger s' ! nat cIdx = n - 1)
          \<and> (\<not> counted \<longrightarrow> inputSignalsToTrigger s' = inputSignalsToTrigger s)
          \<and> (\<forall>c'. c' \<noteq> nat cIdx \<longrightarrow> inputSignalsToTrigger s' ! c' = inputSignalsToTrigger s ! c')
          \<and> setSignal circuit sanity currentComponentIdx cIdx sIdx v s =
              (if counted \<and> n - 1 = 0 then triggerComponent circuit cIdx s' else Inr s')
          \<and> (in_range (components circuit) cIdx \<longrightarrow>
               triggerComponent circuit cIdx s' =
                 (if newThread (components circuit ! nat cIdx)
                  then Inr (s'\<lparr>threads := threads s @ [cIdx]\<rparr>)
                  else fn (components circuit ! nat cIdx) cIdx s'))"
proof -
  have a: "nat sIdx < length (signalValues s)" using sIdx by (rule in_range_nat)
  show ?thesis
  proof (cases "mapIsInput circuit sIdx")
    case True
    with cIdx have c: "in_range (inputSignalsToTrigger s) cIdx" by simp
    then have b: "nat cIdx < length (inputSignalsToTrigger s)" by (rule in_range_nat)
    show ?thesis using True a b c sIdx mask
      by (cases sanity)
        (simp_all add: setSignal_def triggerComponent_def Let_def read_at_def write_at_def)
  next
    case False
    show ?thesis using False a sIdx mask
      by (cases sanity)
        (simp_all add: setSignal_def triggerComponent_def Let_def read_at_def write_at_def)
  qed
qed

text \<open>
  The adder: setting signal 1 takes the counter from 2 to 1 and triggers nothing;
  setting signal 2 takes it to 0 and runs the component once, which writes \<open>50 + 60\<close>
  modulo 101 to signal 3 and finishes.
\<close>

theorem setSignal_effect_witness:
  "setSignal adder False 0 0 1 50 adder_start = Inr adder_mid
   \<and> setSignal adder False 0 0 2 60 adder_mid = Inr adder_done"
proof -
  have 1: "in_range (signalValues adder_start) 1"
    "mapIsInput adder 1 \<longrightarrow> in_range (inputSignalsToTrigger adder_start) 0"
    "False \<longrightarrow> in_range (signalAssigned adder_start) 1 \<and> \<not> signalAssigned adder_start ! nat 1"
    by (simp_all add: adder_start_def in_range_def)
  have 2: "in_range (signalValues adder_mid) 2"
    "mapIsInput adder 2 \<longrightarrow> in_range (inputSignalsToTrigger adder_mid) 0"
    "False \<longrightarrow> in_range (signalAssigned adder_mid) 2 \<and> \<not> signalAssigned adder_mid ! nat 2"
    by (simp_all add: adder_mid_def in_range_def)
  show ?thesis
    using setSignal_effect [OF 1, where v = 50 and currentComponentIdx = 0]
      setSignal_effect [OF 2, where v = 60 and currentComponentIdx = 0]
    by (simp add: Let_def adder_def adder_start_def adder_mid_def adder_done_def adder_fn_def
        in_range_def)
qed

section \<open>Waiting for a component\<close>

lemma await_found:
  assumes "k \<le> j"
    and "\<forall>i. k \<le> i \<and> i < j \<longrightarrow>
           in_range (inputSignalsToTrigger (env i)) cIdx
         \<and> inputSignalsToTrigger (env i) ! nat cIdx \<noteq> - 1"
    and "in_range (inputSignalsToTrigger (env j)) cIdx"
    and "inputSignalsToTrigger (env j) ! nat cIdx = - 1"
  shows "await env cIdx k = Some (Inr j)"
  using assms
proof (induction "j - k" arbitrary: k)
  case 0
  then have "k = j" by simp
  with 0 show ?case by (simp add: await.simps [of env cIdx j] read_at_def)
next
  case (Suc n)
  then have lt: "k < j" by simp
  with Suc.prems have here: "in_range (inputSignalsToTrigger (env k)) cIdx"
    "inputSignalsToTrigger (env k) ! nat cIdx \<noteq> - 1"
    by auto
  have "await env cIdx (Suc k) = Some (Inr j)"
    using Suc.hyps(2) Suc.prems lt by (intro Suc.hyps(1)) auto
  with here show ?case
    by (simp add: await.simps [of env cIdx k] read_at_def)
qed

lemma await_Some:
  assumes "await env cIdx k = Some r"
  shows "\<exists>j\<ge>k. (\<forall>i. k \<le> i \<and> i < j \<longrightarrow>
                 in_range (inputSignalsToTrigger (env i)) cIdx
               \<and> inputSignalsToTrigger (env i) ! nat cIdx \<noteq> - 1)
           \<and> (if in_range (inputSignalsToTrigger (env j)) cIdx
                then inputSignalsToTrigger (env j) ! nat cIdx = - 1 \<and> r = Inr j
                else r = Inl OutOfBounds)"
proof (rule await.raw_induct [OF _ assms])
  fix await' env cIdx k r
  assume IH: "\<And>env cIdx k r. await' env cIdx k = Some r \<Longrightarrow>
     \<exists>j\<ge>k. (\<forall>i. k \<le> i \<and> i < j \<longrightarrow>
                 in_range (inputSignalsToTrigger (env i)) cIdx
               \<and> inputSignalsToTrigger (env i) ! nat cIdx \<noteq> - 1)
           \<and> (if in_range (inputSignalsToTrigger (env j)) cIdx
                then inputSignalsToTrigger (env j) ! nat cIdx = - 1 \<and> r = Inr j
                else r = Inl OutOfBounds)"
    and step: "(case read_at (inputSignalsToTrigger (env k)) cIdx of
        Inl e \<Rightarrow> Some (Inl e)
      | Inr n \<Rightarrow> if n \<noteq> - 1 then await' env cIdx (Suc k) else Some (Inr k)) = Some r"
  show "\<exists>j\<ge>k. (\<forall>i. k \<le> i \<and> i < j \<longrightarrow>
                 in_range (inputSignalsToTrigger (env i)) cIdx
               \<and> inputSignalsToTrigger (env i) ! nat cIdx \<noteq> - 1)
           \<and> (if in_range (inputSignalsToTrigger (env j)) cIdx
                then inputSignalsToTrigger (env j) ! nat cIdx = - 1 \<and> r = Inr j
                else r = Inl OutOfBounds)"
  proof (cases "in_range (inputSignalsToTrigger (env k)) cIdx")
    case False
    with step have "r = Inl OutOfBounds" by (simp add: read_at_def)
    with False show ?thesis
      by (intro exI [of _ k]) simp
  next
    case True
    show ?thesis
    proof (cases "inputSignalsToTrigger (env k) ! nat cIdx = - 1")
      case m: True
      with True step have "r = Inr k" by (simp add: read_at_def)
      with True m show ?thesis
        by (intro exI [of _ k]) simp
    next
      case m: False
      with True step have "await' env cIdx (Suc k) = Some r"
        by (simp add: read_at_def)
      from IH [OF this] obtain j where j: "Suc k \<le> j"
        "\<forall>i. Suc k \<le> i \<and> i < j \<longrightarrow>
                 in_range (inputSignalsToTrigger (env i)) cIdx
               \<and> inputSignalsToTrigger (env i) ! nat cIdx \<noteq> - 1"
        "if in_range (inputSignalsToTrigger (env j)) cIdx
                then inputSignalsToTrigger (env j) ! nat cIdx = - 1 \<and> r = Inr j
                else r = Inl OutOfBounds"
        by (elim exE conjE)
      have "\<forall>i. k \<le> i \<and> i < j \<longrightarrow>
                 in_range (inputSignalsToTrigger (env i)) cIdx
               \<and> inputSignalsToTrigger (env i) ! nat cIdx \<noteq> - 1"
      proof (intro allI impI)
        fix i assume i: "k \<le> i \<and> i < j"
        show "in_range (inputSignalsToTrigger (env i)) cIdx
               \<and> inputSignalsToTrigger (env i) ! nat cIdx \<noteq> - 1"
        proof (cases "i = k")
          case True with \<open>in_range (inputSignalsToTrigger (env k)) cIdx\<close> m show ?thesis by simp
        next
          case False
          with i have "Suc k \<le> i \<and> i < j" by simp
          with j(2) show ?thesis by blast
        qed
      qed
      moreover from j(1) have "k \<le> j" by simp
      ultimately show ?thesis using j(3)
        by (intro exI [of _ j] conjI)
    qed
  qed
qed

lemma await_never:
  assumes "\<forall>i\<ge>k. in_range (inputSignalsToTrigger (env i)) cIdx
                \<and> inputSignalsToTrigger (env i) ! nat cIdx \<noteq> - 1"
  shows "await env cIdx k = None"
proof (cases "await env cIdx k")
  case None
  then show ?thesis .
next
  case (Some r)
  from await_Some [OF this] obtain j where j: "k \<le> j"
    "if in_range (inputSignalsToTrigger (env j)) cIdx
     then inputSignalsToTrigger (env j) ! nat cIdx = - 1 \<and> r = Inr j
     else r = Inl OutOfBounds"
    by (elim exE conjE)
  from assms j(1) have "in_range (inputSignalsToTrigger (env j)) cIdx"
    "inputSignalsToTrigger (env j) ! nat cIdx \<noteq> - 1" by simp_all
  with j(2) show ?thesis by simp
qed

text \<open>
  Claim C7. Take a call \<open>getSignal currentComponent producingComponent sIdx\<close> whose
  producing component exists and has a counter at every look. The call enters the
  blocking section, which locks the mutex of slot \<open>producingComponent mod NMUTEXES\<close> and
  waits on the condition variable of the same slot, if and only if the producing
  component is flagged \<open>newThread\<close> and differs from the current one. In that case it
  waits once for every look at which the counter of the producing component is not
  \<open>-1\<close>, leaves the section at the first look \<open>k\<close> where the counter is \<open>-1\<close>, and never
  returns if there is no such look. Only then is the signal read, at look \<open>k + 1\<close>;
  outside the blocking case it is read on entry, at look 0, with no synchronisation
  call. What the call returns is decided at the look of the read alone: the value of
  \<open>signalValues[sIdx]\<close> found there if \<open>sIdx\<close> is inside the array and, in a sanity
  build, marked assigned there; otherwise the failure of the sanity check or of the
  access. A signal that is unassigned while the call waits is no failure.
\<close>

theorem getSignal_waits:
  assumes comp: "in_range (components circuit) cIdx"
    and nm: "0 < NMUTEXES"
    and cnt: "\<forall>k. in_range (inputSignalsToTrigger (env k)) cIdx"
  shows "let m = nat cIdx mod NMUTEXES;
             waits = (newThread (components circuit ! nat cIdx) \<and> currentComponentIdx \<noteq> cIdx);
             fin = (\<lambda>k. inputSignalsToTrigger (env k) ! nat cIdx = - 1);
             copy = (\<lambda>j evs.
               if in_range (signalValues (env j)) sIdx
                  \<and> (sanity \<longrightarrow> in_range (signalAssigned (env j)) sIdx
                                \<and> signalAssigned (env j) ! nat sIdx)
               then Some (Inr (signalValues (env j) ! nat sIdx, evs))
               else Some (Inl (if sanity \<and> in_range (signalAssigned (env j)) sIdx
                                  \<and> \<not> signalAssigned (env j) ! nat sIdx
                               then NotAssignedSignal sIdx else OutOfBounds)))
         in m < NMUTEXES
          \<and> getSignal circuit sanity NMUTEXES env currentComponentIdx cIdx sIdx =
              (if waits then
                 (if \<exists>k. fin k then
                    (let k = (LEAST k. fin k)
                     in copy (Suc k) (Lock m # replicate k (Wait m) @ [Unlock m]))
                  else None)
               else copy 0 [])"
proof -
  let ?c = "components circuit ! nat cIdx"
  let ?fin = "\<lambda>k. inputSignalsToTrigger (env k) ! nat cIdx = - 1"
  let ?ok = "\<lambda>j. in_range (signalValues (env j)) sIdx
                  \<and> (sanity \<longrightarrow> in_range (signalAssigned (env j)) sIdx
                                \<and> signalAssigned (env j) ! nat sIdx)"
  let ?err = "\<lambda>j. if sanity \<and> in_range (signalAssigned (env j)) sIdx
                                  \<and> \<not> signalAssigned (env j) ! nat sIdx
                               then NotAssignedSignal sIdx else OutOfBounds"
  have c: "read_at (components circuit) cIdx = Inr ?c"
    using comp by (simp add: read_at_def)
  have out: "copy_out sanity (env j) sIdx =
               (if ?ok j then Inr (signalValues (env j) ! nat sIdx) else Inl (?err j))" for j
    by (cases sanity) (simp_all add: copy_out_def read_at_def)
  have m: "nat cIdx mod NMUTEXES < NMUTEXES" using nm by simp
  show ?thesis
  proof (cases "newThread ?c \<and> currentComponentIdx \<noteq> cIdx")
    case False
    then show ?thesis using m
      by (cases "?ok 0") (auto simp: getSignal_def c out Let_def)
  next
    case w: True
    show ?thesis
    proof (cases "\<exists>k. ?fin k")
      case True
      then obtain k1 where "?fin k1" ..
      define k0 where "k0 = (LEAST k. ?fin k)"
      have fin: "?fin k0" unfolding k0_def using \<open>?fin k1\<close> by (rule LeastI)
      have before: "\<forall>i. 0 \<le> i \<and> i < k0 \<longrightarrow>
           in_range (inputSignalsToTrigger (env i)) cIdx
         \<and> inputSignalsToTrigger (env i) ! nat cIdx \<noteq> - 1"
      proof (intro allI impI conjI)
        fix i assume i: "0 \<le> i \<and> i < k0"
        show "in_range (inputSignalsToTrigger (env i)) cIdx" using cnt by simp
        from i show "inputSignalsToTrigger (env i) ! nat cIdx \<noteq> - 1"
          unfolding k0_def using not_less_Least by blast
      qed
      have "await env cIdx 0 = Some (Inr k0)"
        using before cnt fin by (intro await_found) simp_all
      with w True show ?thesis using m
        by (cases "?ok (Suc k0)") (simp_all add: getSignal_def c out Let_def k0_def)
    next
      case False
      then have "await env cIdx 0 = None"
        using cnt by (intro await_never) simp
      with w False show ?thesis using m
        by (simp add: getSignal_def c Let_def)
    qed
  qed
qed

text \<open>
  Branch 1 reads signal 3 of branch 0 under the schedule above: two waits on slot 0,
  then the value 10 that branch 0 wrote. This is so in a sanity build too, where the
  signal is not yet marked assigned when the call starts to wait. Branch 0 reading its
  own signal does not wait: it gets what the array holds on entry in a release build,
  and is refused in a sanity build, the signal being unassigned at that look.
\<close>

lemma schedule_least: "(LEAST k. inputSignalsToTrigger (schedule k) ! 0 = - 1) = 2"
proof (rule Least_equality)
  show "inputSignalsToTrigger (schedule 2) ! 0 = - 1"
    by (simp add: schedule_def branches_half_def)
next
  fix y assume "inputSignalsToTrigger (schedule y) ! 0 = - 1"
  then show "2 \<le> y"
    by (cases "y < 2") (simp_all add: schedule_def branches_running_def)
qed

lemma schedule_sanity_least:
  "(LEAST k. inputSignalsToTrigger (schedule_sanity k) ! 0 = - 1) = 2"
  using schedule_least by (simp add: schedule_sanity_def)

theorem getSignal_waits_witness:
  "getSignal branches False 64 schedule 1 0 3 = Some (Inr (10, [Lock 0, Wait 0, Wait 0, Unlock 0]))
   \<and> getSignal branches False 64 schedule 0 0 3 = Some (Inr (0, []))
   \<and> signalAssigned (schedule_sanity 0) ! 3 = False
   \<and> getSignal branches True 64 schedule_sanity 1 0 3
       = Some (Inr (10, [Lock 0, Wait 0, Wait 0, Unlock 0]))
   \<and> getSignal branches True 64 schedule_sanity 0 0 3 = Some (Inl (NotAssignedSignal 3))"
proof -
  have comp: "in_range (components branches) 0"
    by (simp add: branches_def in_range_def)
  have nm: "0 < (64 :: nat)" by simp
  have cnt: "\<forall>k. in_range (inputSignalsToTrigger (schedule k)) 0"
    by (simp add: schedule_def branches_running_def branches_half_def branches_done_def
        in_range_def)
  have cnt': "\<forall>k. in_range (inputSignalsToTrigger (schedule_sanity k)) 0"
    using cnt by (simp add: schedule_sanity_def)
  have ex: "\<exists>k. inputSignalsToTrigger (schedule k) ! 0 = - 1"
    by (rule exI [of _ 2]) (simp add: schedule_def branches_half_def)
  have ex': "\<exists>k. inputSignalsToTrigger (schedule_sanity k) ! 0 = - 1"
    using ex by (simp add: schedule_sanity_def)
  have l3: "schedule (Suc 2) = branches_half" "schedule 3 = branches_half"
    "schedule 0 = branches_running"
    by (simp_all add: schedule_def)
  have s3: "schedule_sanity (Suc 2)
              = branches_half\<lparr>signalAssigned := [True, True, True, True, False]\<rparr>"
    "schedule_sanity 3
              = branches_half\<lparr>signalAssigned := [True, True, True, True, False]\<rparr>"
    "schedule_sanity 0 = branches_running\<lparr>signalAssigned := [True, True, True, False, False]\<rparr>"
    by (simp_all add: schedule_sanity_def schedule_def)
  have a: "getSignal branches False 64 schedule 1 0 3 =
             Some (Inr (10, Lock 0 # replicate 2 (Wait 0) @ [Unlock 0]))"
    using getSignal_waits [OF comp nm cnt, where currentComponentIdx = 1 and sIdx = 3
        and sanity = False] ex
    by (simp add: Let_def schedule_least branches_def l3 branches_half_def in_range_def)
  have b: "getSignal branches False 64 schedule 0 0 3 = Some (Inr (0, []))"
    using getSignal_waits [OF comp nm cnt, where currentComponentIdx = 0 and sIdx = 3
        and sanity = False]
    by (simp add: Let_def l3 branches_running_def in_range_def)
  have c: "getSignal branches True 64 schedule_sanity 1 0 3 =
             Some (Inr (10, Lock 0 # replicate 2 (Wait 0) @ [Unlock 0]))"
    using getSignal_waits [OF comp nm cnt', where currentComponentIdx = 1 and sIdx = 3
        and sanity = True] ex'
    by (simp add: Let_def schedule_sanity_least branches_def s3 branches_half_def in_range_def)
  have d: "getSignal branches True 64 schedule_sanity 0 0 3 = Some (Inl (NotAssignedSignal 3))"
    using getSignal_waits [OF comp nm cnt', where currentComponentIdx = 0 and sIdx = 3
        and sanity = True]
    by (simp add: Let_def s3 branches_running_def in_range_def)
  show ?thesis
    unfolding a b c d by (simp add: s3 numeral_2_eq_2)
qed

section \<open>join\<close>

lemma stays_finished_later:
  assumes "stays_finished env n" and "c < n"
    and "inputSignalsToTrigger (env k) ! c = - 1" and "k \<le> j"
  shows "inputSignalsToTrigger (env j) ! c = - 1"
  using assms(4,3)
proof (induction j rule: dec_induct)
  case base
  then show ?case .
next
  case (step m)
  with assms(1,2) show ?case by (simp add: stays_finished_def)
qed

lemma join_loop_result:
  assumes "join_loop NMUTEXES env cs k = Some r"
    and "\<forall>j. \<forall>c\<in>set cs. c < length (inputSignalsToTrigger (env j))"
  shows "\<exists>K ws. r = Inr (K, join_calls NMUTEXES cs ws) \<and> length ws = length cs \<and> k \<le> K
           \<and> (\<forall>c\<in>set cs. \<exists>j. k \<le> j \<and> j < K \<and> inputSignalsToTrigger (env j) ! c = - 1)"
  using assms
proof (induction cs arbitrary: k r)
  case Nil
  then show ?case by (auto simp: join_calls_def)
next
  case (Cons i cs)
  from Cons.prems(1) obtain a where a: "await env (int i) k = Some a"
    by (cases "await env (int i) k") auto
  from await_Some [OF a] obtain k' where k': "k \<le> k'"
    "if in_range (inputSignalsToTrigger (env k')) (int i)
     then inputSignalsToTrigger (env k') ! nat (int i) = - 1 \<and> a = Inr k'
     else a = Inl OutOfBounds"
    by (elim exE conjE)
  from Cons.prems(2) have "in_range (inputSignalsToTrigger (env k')) (int i)" by simp
  with k'(2) have fin: "inputSignalsToTrigger (env k') ! i = - 1" and a': "a = Inr k'"
    by simp_all
  from Cons.prems(1) a a' obtain b where b: "join_loop NMUTEXES env cs (Suc k') = Some b"
    by (cases "join_loop NMUTEXES env cs (Suc k')") auto
  from Cons.prems(2) have rng: "\<forall>j. \<forall>c\<in>set cs. c < length (inputSignalsToTrigger (env j))"
    by simp
  from Cons.IH [OF b rng] obtain K ws where K:
    "b = Inr (K, join_calls NMUTEXES cs ws)" "length ws = length cs" "Suc k' \<le> K"
    "\<forall>c\<in>set cs. \<exists>j. Suc k' \<le> j \<and> j < K \<and> inputSignalsToTrigger (env j) ! c = - 1"
    by (elim exE conjE)
  from Cons.prems(1) a a' b K(1)
  have r: "r = Inr (K, join_calls NMUTEXES (i # cs) ((k' - k) # ws))"
    by (simp add: join_calls_def)
  have all: "\<forall>c\<in>set (i # cs). \<exists>j. k \<le> j \<and> j < K \<and> inputSignalsToTrigger (env j) ! c = - 1"
  proof
    fix c assume "c \<in> set (i # cs)"
    then consider "c = i" | "c \<in> set cs" by auto
    then show "\<exists>j. k \<le> j \<and> j < K \<and> inputSignalsToTrigger (env j) ! c = - 1"
    proof cases
      case 1
      with k'(1) K(3) fin show ?thesis by (intro exI [of _ k']) simp
    next
      case 2
      with K(4) obtain j where "Suc k' \<le> j \<and> j < K \<and> inputSignalsToTrigger (env j) ! c = - 1"
        by blast
      with k'(1) show ?thesis by (intro exI [of _ j]) simp
    qed
  qed
  from k'(1) K(3) have "k \<le> K" by simp
  with r K(2) all show ?case
    by (intro exI [of _ K] exI [of _ "(k' - k) # ws"]) simp
qed

lemma join_loop_blocked:
  assumes "c \<in> set cs"
    and "\<forall>j. inputSignalsToTrigger (env j) ! c \<noteq> - 1"
    and "\<forall>j. \<forall>c\<in>set cs. c < length (inputSignalsToTrigger (env j))"
  shows "join_loop NMUTEXES env cs k = None"
proof (cases "join_loop NMUTEXES env cs k")
  case None
  then show ?thesis .
next
  case (Some r)
  from join_loop_result [OF Some assms(3)] assms(1) obtain j
    where "inputSignalsToTrigger (env j) ! c = - 1" by blast
  with assms(2) show ?thesis by simp
qed

lemma join_loop_returns:
  assumes "stays_finished env n"
    and "\<forall>c\<in>set cs. c < n"
    and "\<forall>j. \<forall>c\<in>set cs. c < length (inputSignalsToTrigger (env j))"
    and "\<forall>c\<in>set cs. \<exists>j. inputSignalsToTrigger (env j) ! c = - 1"
  shows "join_loop NMUTEXES env cs k \<noteq> None"
  using assms(2-)
proof (induction cs arbitrary: k)
  case Nil
  then show ?case by simp
next
  case (Cons i cs)
  let ?P = "\<lambda>j. k \<le> j \<and> inputSignalsToTrigger (env j) ! i = - 1"
  from Cons.prems(3) obtain j0 where j0: "inputSignalsToTrigger (env j0) ! i = - 1" by auto
  from Cons.prems(1) have "i < n" by simp
  from stays_finished_later [OF assms(1) this j0, of "max j0 k"]
  have "?P (max j0 k)" by simp
  define j where "j = (LEAST j. ?P j)"
  have Pj: "?P j" unfolding j_def using \<open>?P (max j0 k)\<close> by (rule LeastI)
  have before: "\<forall>x. k \<le> x \<and> x < j \<longrightarrow>
           in_range (inputSignalsToTrigger (env x)) (int i)
         \<and> inputSignalsToTrigger (env x) ! nat (int i) \<noteq> - 1"
  proof (intro allI impI conjI)
    fix x assume x: "k \<le> x \<and> x < j"
    show "in_range (inputSignalsToTrigger (env x)) (int i)" using Cons.prems(2) by simp
    from x have "\<not> ?P x" unfolding j_def using not_less_Least by blast
    with x show "inputSignalsToTrigger (env x) ! nat (int i) \<noteq> - 1" by simp
  qed
  have "await env (int i) k = Some (Inr j)"
    using Pj before Cons.prems(2) by (intro await_found) simp_all
  moreover have "join_loop NMUTEXES env cs (Suc j) \<noteq> None"
    using Cons.prems by (intro Cons.IH) simp_all
  ultimately show ?case
    by (auto split: sum.splits)
qed

text \<open>
  Claim C8. Let \<open>n\<close> be \<open>NComponents\<close>, with the counters of the \<open>n\<close> components inside
  their array at every look. If \<open>join\<close> returns, it returns normally; its
  synchronisation calls are, for the components \<open>0, 1, ..., n - 1\<close> in this order, a lock
  of slot \<open>c mod NMUTEXES\<close>, some waits on that slot and its unlock; and for every
  component there is a look before the return at which its counter was \<open>-1\<close>. If no
  \<open>reset\<close> interferes (a counter that is \<open>-1\<close> stays \<open>-1\<close>), then at the last look of \<open>join\<close>
  and at every later one all \<open>n\<close> counters are \<open>-1\<close>. \<open>join\<close> waits for ever if some
  component never finishes, and does return if every component finishes and stays so.
  \<open>join\<close> writes to no calculator array: it yields no state, and a driver that calls it
  has the state it had before.
\<close>

theorem join_waits_for_all:
  assumes nm: "0 < NMUTEXES"
    and cnt: "\<forall>k c. c < nat (NComponents circuit) \<longrightarrow> c < length (inputSignalsToTrigger (env k))"
  shows "let n = nat (NComponents circuit);
             fin = (\<lambda>c k. inputSignalsToTrigger (env k) ! c = - 1)
         in (\<forall>r. join circuit NMUTEXES env = Some r \<longrightarrow>
               (\<exists>K ws. r = Inr (K, join_calls NMUTEXES [0..<n] ws) \<and> length ws = n
                  \<and> (\<forall>c<n. \<exists>j<K. fin c j)
                  \<and> (stays_finished env n \<longrightarrow> (\<forall>c<n. \<forall>j. K \<le> Suc j \<longrightarrow> fin c j))))
          \<and> ((\<exists>c<n. \<forall>k. \<not> fin c k) \<longrightarrow> join circuit NMUTEXES env = None)
          \<and> (stays_finished env n \<and> (\<forall>c<n. \<exists>k. fin c k) \<longrightarrow> join circuit NMUTEXES env \<noteq> None)
          \<and> (\<forall>c<n. c mod NMUTEXES < NMUTEXES)
          \<and> (\<forall>sanity s s'. apply_op circuit sanity NMUTEXES Join s = Some (Inr s') \<longrightarrow> s' = s)"
proof -
  let ?n = "nat (NComponents circuit)"
  have rng: "\<forall>j. \<forall>c\<in>set [0..<?n]. c < length (inputSignalsToTrigger (env j))"
    using cnt by simp
  have 1: "\<exists>K ws. r = Inr (K, join_calls NMUTEXES [0..<?n] ws) \<and> length ws = ?n
                  \<and> (\<forall>c<?n. \<exists>j<K. inputSignalsToTrigger (env j) ! c = - 1)
                  \<and> (stays_finished env ?n \<longrightarrow>
                       (\<forall>c<?n. \<forall>j. K \<le> Suc j \<longrightarrow> inputSignalsToTrigger (env j) ! c = - 1))"
    if r: "join circuit NMUTEXES env = Some r" for r
  proof -
    from r have "join_loop NMUTEXES env [0..<?n] 0 = Some r" by (simp add: join_def)
    from join_loop_result [OF this rng] obtain K ws where K:
      "r = Inr (K, join_calls NMUTEXES [0..<?n] ws)" "length ws = length [0..<?n]"
      "\<forall>c\<in>set [0..<?n]. \<exists>j. 0 \<le> j \<and> j < K \<and> inputSignalsToTrigger (env j) ! c = - 1"
      by (elim exE conjE)
    have a: "\<forall>c<?n. \<exists>j<K. inputSignalsToTrigger (env j) ! c = - 1"
      using K(3) by simp
    have b: "\<forall>c<?n. \<forall>j. K \<le> Suc j \<longrightarrow> inputSignalsToTrigger (env j) ! c = - 1"
      if st: "stays_finished env ?n"
    proof (intro allI impI)
      fix c j assume c: "c < ?n" and j: "K \<le> Suc j"
      from a c obtain j0 where j0: "j0 < K" "inputSignalsToTrigger (env j0) ! c = - 1" by blast
      from j0(1) j have "j0 \<le> j" by simp
      from stays_finished_later [OF st c j0(2) this]
      show "inputSignalsToTrigger (env j) ! c = - 1" .
    qed
    from K(1,2) a b show ?thesis
      by (intro exI [of _ K] exI [of _ ws]) simp
  qed
  have 2: "join circuit NMUTEXES env = None"
    if "\<exists>c<?n. \<forall>k. inputSignalsToTrigger (env k) ! c \<noteq> - 1"
  proof -
    from that obtain c where c: "c < ?n" "\<forall>k. inputSignalsToTrigger (env k) ! c \<noteq> - 1" by blast
    from c(1) have "c \<in> set [0..<?n]" by simp
    from join_loop_blocked [OF this c(2) rng] show ?thesis by (simp add: join_def)
  qed
  have 3: "join circuit NMUTEXES env \<noteq> None"
    if "stays_finished env ?n \<and> (\<forall>c<?n. \<exists>k. inputSignalsToTrigger (env k) ! c = - 1)"
    unfolding join_def using that rng by (intro join_loop_returns [of env ?n]) simp_all
  have 4: "\<forall>c<?n. c mod NMUTEXES < NMUTEXES" using nm by simp
  have 5: "\<forall>sanity s s'. apply_op circuit sanity NMUTEXES Join s = Some (Inr s') \<longrightarrow> s' = s"
    by (auto split: option.splits sum.splits)
  from 1 2 3 4 5 show ?thesis
    unfolding Let_def by blast
qed

text \<open>
  The two branches under the schedule above: \<open>join\<close> waits twice for branch 0, once for
  branch 1, and returns after five looks, when both counters are \<open>-1\<close>.
\<close>

lemma join_schedule:
  "join branches 64 schedule
     = Some (Inr (5, [Lock 0, Wait 0, Wait 0, Unlock 0, Lock 1, Wait 1, Unlock 1]))"
  by (simp add: join_def branches_def await.simps schedule_def read_at_def in_range_def
     branches_running_def branches_half_def branches_done_def numeral_2_eq_2)

lemma schedule_stays_finished: "stays_finished schedule 2"
  unfolding stays_finished_def
proof (intro allI impI)
  fix k c assume a: "c < 2 \<and> inputSignalsToTrigger (schedule k) ! c = - 1"
  then have c: "c = 0 \<or> c = 1" by auto
  consider "k < 2" | "k = 2" | "k = 3" | "4 \<le> k" by linarith
  then show "inputSignalsToTrigger (schedule (Suc k)) ! c = - 1"
  proof cases
    case 1
    with a c show ?thesis by (auto simp: schedule_def branches_running_def)
  next
    case 2
    with a c show ?thesis by (auto simp: schedule_def branches_half_def)
  next
    case 3
    with a c show ?thesis by (auto simp: schedule_def branches_done_def)
  next
    case 4
    with a c show ?thesis by (auto simp: schedule_def branches_done_def)
  qed
qed

theorem join_waits_for_all_witness:
  "join branches 64 schedule
     = Some (Inr (5, [Lock 0, Wait 0, Wait 0, Unlock 0, Lock 1, Wait 1, Unlock 1]))
   \<and> stays_finished schedule 2
   \<and> inputSignalsToTrigger (schedule 4) = [- 1, - 1]"
proof -
  have nm: "0 < (64 :: nat)" by simp
  have cnt: "\<forall>k c. c < nat (NComponents branches) \<longrightarrow>
               c < length (inputSignalsToTrigger (schedule k))"
    by (simp add: branches_def schedule_def branches_running_def branches_half_def
        branches_done_def)
  show ?thesis
    using join_waits_for_all [OF nm cnt] join_schedule schedule_stays_finished
    by (simp add: schedule_def branches_done_def)
qed

section \<open>What every operation keeps\<close>

text \<open>
  \<open>setSignal\<close>, when it returns, has made its stores and has then either returned or
  ended in the trigger of the owning component.
\<close>

lemma setSignal_Inr:
  assumes "setSignal circuit sanity cur cIdx sIdx v s = Inr r"
  shows "in_range (signalValues s) sIdx
       \<and> (sanity \<longrightarrow> in_range (signalAssigned s) sIdx \<and> \<not> signalAssigned s ! nat sIdx)
       \<and> (\<exists>p. (p = inputSignalsToTrigger s
                 \<or> (mapIsInput circuit sIdx \<and> in_range (inputSignalsToTrigger s) cIdx
                     \<and> 0 < inputSignalsToTrigger s ! nat cIdx
                     \<and> p = (inputSignalsToTrigger s)
                            [nat cIdx := inputSignalsToTrigger s ! nat cIdx - 1]))
              \<and> (r = s\<lparr>signalAssigned :=
                          (if sanity then (signalAssigned s)[nat sIdx := True]
                           else signalAssigned s),
                        signalValues := (signalValues s)[nat sIdx := v],
                        inputSignalsToTrigger := p\<rparr>
                  \<or> (mapIsInput circuit sIdx \<and> in_range (inputSignalsToTrigger s) cIdx
                      \<and> inputSignalsToTrigger s ! nat cIdx = 1
                      \<and> p = (inputSignalsToTrigger s)[nat cIdx := 0]
                      \<and> triggerComponent circuit cIdx
                           (s\<lparr>signalAssigned :=
                                 (if sanity then (signalAssigned s)[nat sIdx := True]
                                  else signalAssigned s),
                               signalValues := (signalValues s)[nat sIdx := v],
                               inputSignalsToTrigger := p\<rparr>) = Inr r)))"
proof -
  from assms have m: "sanity \<longrightarrow> in_range (signalAssigned s) sIdx \<and> \<not> signalAssigned s ! nat sIdx"
    by (auto simp: setSignal_def read_at_def split: if_splits sum.splits)
  from assms have v: "in_range (signalValues s) sIdx"
    by (cases sanity) (auto simp: setSignal_def read_at_def write_at_def split: if_splits sum.splits)
  let ?s = "\<lambda>p. s\<lparr>signalAssigned :=
                          (if sanity then (signalAssigned s)[nat sIdx := True]
                           else signalAssigned s),
                        signalValues := (signalValues s)[nat sIdx := v],
                        inputSignalsToTrigger := p\<rparr>"
  show ?thesis
  proof (cases "mapIsInput circuit sIdx")
    case False
    with assms m v have "r = ?s (inputSignalsToTrigger s)"
      by (cases sanity) (auto simp: setSignal_def read_at_def write_at_def)
    with m v show ?thesis by blast
  next
    case True
    from assms True m v have c: "in_range (inputSignalsToTrigger s) cIdx"
      by (cases sanity)
        (auto simp: setSignal_def read_at_def write_at_def Let_def split: if_splits)
    then have l: "nat cIdx < length (inputSignalsToTrigger s)" by (rule in_range_nat)
    let ?n = "inputSignalsToTrigger s ! nat cIdx"
    consider "?n \<le> 0" | "?n = 1" | "1 < ?n" by linarith
    then show ?thesis
    proof cases
      case 1
      with assms True m v c have "r = ?s (inputSignalsToTrigger s)"
        by (cases sanity) (auto simp: setSignal_def read_at_def write_at_def Let_def)
      with m v show ?thesis by blast
    next
      case 2
      with assms True m v c l
      have "triggerComponent circuit cIdx (?s ((inputSignalsToTrigger s)[nat cIdx := 0])) = Inr r"
        by (cases sanity) (auto simp: setSignal_def read_at_def write_at_def Let_def)
      with 2 True m v c show ?thesis
        by (intro conjI exI [of _ "(inputSignalsToTrigger s)[nat cIdx := 0]"]) auto
    next
      case 3
      with assms True m v c l
      have "r = ?s ((inputSignalsToTrigger s)[nat cIdx := ?n - 1])"
        by (cases sanity) (auto simp: setSignal_def read_at_def write_at_def Let_def)
      with 3 True m v c show ?thesis
        by (intro conjI exI [of _ "(inputSignalsToTrigger s)[nat cIdx := ?n - 1]"]) auto
    qed
  qed
qed

lemma clearAssigned_Inr:
  "clearAssigned cs a = Inr a' \<Longrightarrow>
     length a' = length a \<and> (\<forall>j. j \<notin> set cs \<longrightarrow> a' ! j = a ! j)"
proof (induction cs arbitrary: a)
  case Nil
  then show ?case by simp
next
  case (Cons i cs)
  from Cons.prems have i: "i < length a" and rest: "clearAssigned cs (a[i := False]) = Inr a'"
    by (auto simp: write_at_def split: if_splits)
  from Cons.IH [OF rest] show ?case by auto
qed

text \<open>
  A predicate on the signal values and the sanity mask that the generated functions
  keep is kept by every operation whose own stores keep it.
\<close>

lemma triggerComponent_keeps:
  assumes rely: "fn_keeps I circuit"
    and frame: "\<And>s s'. signalValues s' = signalValues s \<Longrightarrow>
                  signalAssigned s' = signalAssigned s \<Longrightarrow> I s \<Longrightarrow> I s'"
    and "I s" and "triggerComponent circuit c s = Inr s'"
  shows "I s'"
proof -
  from assms(4) have c: "in_range (components circuit) c"
    by (auto simp: triggerComponent_def read_at_def split: if_splits)
  then have mem: "components circuit ! nat c \<in> set (components circuit)"
    by (intro nth_mem in_range_nat)
  show ?thesis
  proof (cases "newThread (components circuit ! nat c)")
    case True
    with assms(4) c have "s' = s\<lparr>threads := threads s @ [c]\<rparr>"
      by (simp add: triggerComponent_def read_at_def)
    with frame [OF _ _ \<open>I s\<close>, of s'] show ?thesis by simp
  next
    case False
    with assms(4) c have "fn (components circuit ! nat c) c s = Inr s'"
      by (simp add: triggerComponent_def read_at_def)
    with rely mem \<open>I s\<close> show ?thesis
      unfolding fn_keeps_def by blast
  qed
qed

lemma reset_loop_keeps:
  assumes rely: "fn_keeps I circuit"
    and frame: "\<And>s s'. signalValues s' = signalValues s \<Longrightarrow>
                  signalAssigned s' = signalAssigned s \<Longrightarrow> I s \<Longrightarrow> I s'"
  shows "I s \<Longrightarrow> reset_loop circuit cs s = Inr s' \<Longrightarrow> I s'"
proof (induction cs arbitrary: s)
  case Nil
  then show ?case by simp
next
  case (Cons i cs)
  let ?c = "components circuit ! i"
  let ?s1 = "s\<lparr>inputSignalsToTrigger := (inputSignalsToTrigger s)[i := inputSignals ?c]\<rparr>"
  from Cons.prems(2) have i: "i < length (components circuit)"
    "i < length (inputSignalsToTrigger s)"
    by (auto simp: read_at_def write_at_def split: if_splits)
  have I1: "I ?s1" using frame [OF _ _ Cons.prems(1), of ?s1] by simp
  show ?case
  proof (cases "inputSignals ?c = 0")
    case True
    with Cons.prems(2) i obtain s2 where s2: "triggerComponent circuit (int i) ?s1 = Inr s2"
      "reset_loop circuit cs s2 = Inr s'"
      by (auto simp: read_at_def write_at_def Let_def split: sum.splits)
    from triggerComponent_keeps [OF rely frame I1 s2(1)] have "I s2" .
    from Cons.IH [OF this s2(2)] show ?thesis .
  next
    case False
    with Cons.prems(2) i have "reset_loop circuit cs ?s1 = Inr s'"
      by (auto simp: read_at_def write_at_def Let_def)
    from Cons.IH [OF I1 this] show ?thesis .
  qed
qed

lemma reset_keeps:
  assumes rely: "fn_keeps I circuit"
    and frame: "\<And>s s'. signalValues s' = signalValues s \<Longrightarrow>
                  signalAssigned s' = signalAssigned s \<Longrightarrow> I s \<Longrightarrow> I s'"
    and clear: "\<And>s a. I s \<Longrightarrow> length a = length (signalAssigned s) \<Longrightarrow>
                  a ! 0 = signalAssigned s ! 0 \<Longrightarrow> I (s\<lparr>signalAssigned := a\<rparr>)"
    and "I s" and "reset circuit sanity s = Inr s'"
  shows "I s'"
proof (cases sanity)
  case False
  with assms(5) have "reset_loop circuit [0..<nat (NComponents circuit)] s = Inr s'"
    by (simp add: reset_def)
  from reset_loop_keeps [OF rely frame \<open>I s\<close> this] show ?thesis .
next
  case True
  with assms(5) obtain a where a:
    "clearAssigned [1..<nat (NComponents circuit)] (signalAssigned s) = Inr a"
    "reset_loop circuit [0..<nat (NComponents circuit)] (s\<lparr>signalAssigned := a\<rparr>) = Inr s'"
    by (auto simp: reset_def split: sum.splits)
  from clearAssigned_Inr [OF a(1)] have "length a = length (signalAssigned s)"
    "a ! 0 = signalAssigned s ! 0" by simp_all
  from clear [OF \<open>I s\<close> this] have "I (s\<lparr>signalAssigned := a\<rparr>)" .
  from reset_loop_keeps [OF rely frame this a(2)] show ?thesis .
qed

lemma apply_op_keeps:
  assumes rely: "fn_keeps I circuit"
    and frame: "\<And>s s'. signalValues s' = signalValues s \<Longrightarrow>
                  signalAssigned s' = signalAssigned s \<Longrightarrow> I s \<Longrightarrow> I s'"
    and clear: "\<And>s a. I s \<Longrightarrow> length a = length (signalAssigned s) \<Longrightarrow>
                  a ! 0 = signalAssigned s ! 0 \<Longrightarrow> I (s\<lparr>signalAssigned := a\<rparr>)"
    and store: "\<And>s cur c i v. I s \<Longrightarrow> x = SetSignal cur c i v \<Longrightarrow>
                  in_range (signalValues s) i \<Longrightarrow>
                  (sanity \<longrightarrow> in_range (signalAssigned s) i \<and> \<not> signalAssigned s ! nat i) \<Longrightarrow>
                  I (s\<lparr>signalAssigned :=
                          (if sanity then (signalAssigned s)[nat i := True]
                           else signalAssigned s),
                        signalValues := (signalValues s)[nat i := v]\<rparr>)"
    and "I s" and "apply_op circuit sanity NMUTEXES x s = Some (Inr s')"
  shows "I s'"
proof (cases x)
  case (SetSignal cur c i v)
  with assms(6) have r: "setSignal circuit sanity cur c i v s = Inr s'" by simp
  let ?own = "s\<lparr>signalAssigned :=
                          (if sanity then (signalAssigned s)[nat i := True]
                           else signalAssigned s),
                        signalValues := (signalValues s)[nat i := v]\<rparr>"
  from setSignal_Inr [OF r] obtain p where p:
    "in_range (signalValues s) i"
    "sanity \<longrightarrow> in_range (signalAssigned s) i \<and> \<not> signalAssigned s ! nat i"
    "s' = ?own\<lparr>inputSignalsToTrigger := p\<rparr>
     \<or> triggerComponent circuit c (?own\<lparr>inputSignalsToTrigger := p\<rparr>) = Inr s'"
    by auto
  from store [OF \<open>I s\<close> SetSignal p(1,2)] have "I ?own" .
  from frame [OF _ _ this, of "?own\<lparr>inputSignalsToTrigger := p\<rparr>"]
  have Ip: "I (?own\<lparr>inputSignalsToTrigger := p\<rparr>)" by simp
  from p(3) show ?thesis
  proof
    assume "s' = ?own\<lparr>inputSignalsToTrigger := p\<rparr>"
    with Ip show ?thesis by simp
  next
    assume "triggerComponent circuit c (?own\<lparr>inputSignalsToTrigger := p\<rparr>) = Inr s'"
    from triggerComponent_keeps [OF rely frame Ip this] show ?thesis .
  qed
next
  case (GetSignal cur c i)
  with assms(6) have "s' = s" by (auto split: option.splits sum.splits)
  with \<open>I s\<close> show ?thesis by simp
next
  case Reset
  with assms(6) have "reset circuit sanity s = Inr s'" by simp
  from reset_keeps [OF rely frame clear \<open>I s\<close> this] show ?thesis .
next
  case (Finished c)
  with assms(6) have "signalValues s' = signalValues s" "signalAssigned s' = signalAssigned s"
    by (auto simp: finished_def write_at_def split: sum.splits if_splits)
  from frame [OF this \<open>I s\<close>] show ?thesis .
next
  case (TriggerComponent c)
  with assms(6) have "triggerComponent circuit c s = Inr s'" by simp
  from triggerComponent_keeps [OF rely frame \<open>I s\<close> this] show ?thesis .
next
  case Join
  with assms(6) have "s' = s" by (auto split: option.splits sum.splits)
  with \<open>I s\<close> show ?thesis by simp
qed

lemma run_keeps:
  assumes rely: "fn_keeps I circuit"
    and frame: "\<And>s s'. signalValues s' = signalValues s \<Longrightarrow>
                  signalAssigned s' = signalAssigned s \<Longrightarrow> I s \<Longrightarrow> I s'"
    and clear: "\<And>s a. I s \<Longrightarrow> length a = length (signalAssigned s) \<Longrightarrow>
                  a ! 0 = signalAssigned s ! 0 \<Longrightarrow> I (s\<lparr>signalAssigned := a\<rparr>)"
    and store: "\<And>s cur c i v. I s \<Longrightarrow> SetSignal cur c i v \<in> set ops \<Longrightarrow>
                  in_range (signalValues s) i \<Longrightarrow>
                  (sanity \<longrightarrow> in_range (signalAssigned s) i \<and> \<not> signalAssigned s ! nat i) \<Longrightarrow>
                  I (s\<lparr>signalAssigned :=
                          (if sanity then (signalAssigned s)[nat i := True]
                           else signalAssigned s),
                        signalValues := (signalValues s)[nat i := v]\<rparr>)"
  shows "I s \<Longrightarrow> run circuit sanity NMUTEXES ops s = Some (Inr s') \<Longrightarrow> I s'"
  using store
proof (induction ops arbitrary: s)
  case Nil
  then show ?case by simp
next
  case (Cons x xs)
  from Cons.prems(2) obtain s1 where s1: "apply_op circuit sanity NMUTEXES x s = Some (Inr s1)"
    "run circuit sanity NMUTEXES xs s1 = Some (Inr s')"
    by (auto split: option.splits sum.splits)
  have "I s1"
  proof (rule apply_op_keeps [OF rely frame clear _ Cons.prems(1) s1(1)])
    fix s cur c i v
    assume "I s" "x = SetSignal cur c i v" "in_range (signalValues s) i"
      "sanity \<longrightarrow> in_range (signalAssigned s) i \<and> \<not> signalAssigned s ! nat i"
    then show "I (s\<lparr>signalAssigned :=
                          (if sanity then (signalAssigned s)[nat i := True]
                           else signalAssigned s),
                        signalValues := (signalValues s)[nat i := v]\<rparr>)"
      by (intro Cons.prems(3) [where cur = cur and c = c]) simp_all
  qed
  show ?case
  proof (rule Cons.IH [OF \<open>I s1\<close> s1(2)])
    fix s cur c i v
    assume "I s" "SetSignal cur c i v \<in> set xs" "in_range (signalValues s) i"
      "sanity \<longrightarrow> in_range (signalAssigned s) i \<and> \<not> signalAssigned s ! nat i"
    then show "I (s\<lparr>signalAssigned :=
                          (if sanity then (signalAssigned s)[nat i := True]
                           else signalAssigned s),
                        signalValues := (signalValues s)[nat i := v]\<rparr>)"
      by (intro Cons.prems(3) [where cur = cur and c = c]) simp_all
  qed
qed

section \<open>The signal one\<close>

lemma built_state:
  assumes "Circom_CalcWit circuit sanity junkAssigned junkTrigger = Inr s0"
  shows "1 \<le> NSignals circuit
       \<and> reset circuit sanity
           \<lparr>signalAssigned =
              (if sanity then (map junkAssigned [0..<nat (NSignals circuit)])[0 := True] else []),
            inputSignalsToTrigger = map junkTrigger [0..<nat (NComponents circuit)],
            signalValues = 1 # replicate (nat (NSignals circuit) - 1) 0,
            threads = []\<rparr> = Inr s0"
  using assms by (auto simp: Circom_CalcWit_def split: if_splits)

text \<open>
  Claim C3, as the code has it. Suppose the generated functions keep signal 0 at 1 (and,
  in a sanity build, marked assigned), as they do when they never write it. Then
  \<open>signalValues[0]\<close> is 1 after construction and after every sequence of \<open>setSignal\<close>,
  \<open>getSignal\<close>, \<open>reset\<close>, \<open>finished\<close>, \<open>triggerComponent\<close> and \<open>join\<close>, provided that in a
  release build no \<open>setSignal\<close> of the sequence has \<open>sIdx = 0\<close>. In a sanity build
  nothing is asked of the sequence: there a \<open>setSignal\<close> on signal 0 fails, signal 0
  being marked assigned from the constructor on and never cleared by \<open>reset\<close>.
\<close>

theorem one_signal_kept:
  assumes rely: "fn_keeps (one_kept sanity) circuit"
    and built: "Circom_CalcWit circuit sanity junkAssigned junkTrigger = Inr s0"
    and ran: "run circuit sanity NMUTEXES ops s0 = Some (Inr s)"
    and release: "\<not> sanity \<longrightarrow> (\<forall>cur c v. SetSignal cur c 0 v \<notin> set ops)"
  shows "signalValues s0 ! 0 = 1 \<and> signalValues s ! 0 = 1"
proof -
  have frame: "\<And>s s'. signalValues s' = signalValues s \<Longrightarrow>
                  signalAssigned s' = signalAssigned s \<Longrightarrow> one_kept sanity s \<Longrightarrow>
                  one_kept sanity s'"
    by (simp add: one_kept_def)
  have clear: "\<And>s a. one_kept sanity s \<Longrightarrow> length a = length (signalAssigned s) \<Longrightarrow>
                  a ! 0 = signalAssigned s ! 0 \<Longrightarrow> one_kept sanity (s\<lparr>signalAssigned := a\<rparr>)"
    by (simp add: one_kept_def)
  have store: "one_kept sanity (s\<lparr>signalAssigned :=
                          (if sanity then (signalAssigned s)[nat i := True]
                           else signalAssigned s),
                        signalValues := (signalValues s)[nat i := v]\<rparr>)"
    if "one_kept sanity s" "SetSignal cur c i v \<in> set ops" "in_range (signalValues s) i"
      "sanity \<longrightarrow> in_range (signalAssigned s) i \<and> \<not> signalAssigned s ! nat i"
    for s cur c i v
  proof -
    have "i \<noteq> 0"
    proof (cases sanity)
      case True
      with that(1,4) show ?thesis by (auto simp: one_kept_def)
    next
      case False
      with release that(2) show ?thesis by auto
    qed
    with that(3) have "nat i \<noteq> 0" by (simp add: in_range_def)
    with that(1) show ?thesis by (simp add: one_kept_def)
  qed
  from built_state [OF built] have n: "1 \<le> NSignals circuit"
    and r: "reset circuit sanity
           \<lparr>signalAssigned =
              (if sanity then (map junkAssigned [0..<nat (NSignals circuit)])[0 := True] else []),
            inputSignalsToTrigger = map junkTrigger [0..<nat (NComponents circuit)],
            signalValues = 1 # replicate (nat (NSignals circuit) - 1) 0,
            threads = []\<rparr> = Inr s0"
    by simp_all
  have "one_kept sanity
           \<lparr>signalAssigned =
              (if sanity then (map junkAssigned [0..<nat (NSignals circuit)])[0 := True] else []),
            inputSignalsToTrigger = map junkTrigger [0..<nat (NComponents circuit)],
            signalValues = 1 # replicate (nat (NSignals circuit) - 1) 0,
            threads = []\<rparr>"
    using n by (simp add: one_kept_def)
  from reset_keeps [of "one_kept sanity", OF rely frame clear this r]
  have 0: "one_kept sanity s0" .
  from run_keeps [of "one_kept sanity", OF rely frame clear store 0 ran]
  have "one_kept sanity s" .
  with 0 show ?thesis by (simp add: one_kept_def)
qed

text \<open>
  The adder is built, fed its two inputs, read, joined and reset; its signal 0 is 1
  throughout.
\<close>

lemma adder_keeps_one: "fn_keeps (one_kept False) adder"
  by (simp add: fn_keeps_def adder_def adder_fn_def one_kept_def)

lemma adder_built: "Circom_CalcWit adder False (\<lambda>_. False) (\<lambda>_. 7) = Inr adder_start"
  by (simp add: Circom_CalcWit_def adder_def adder_start_def reset_def write_at_def
      read_at_def in_range_def numeral_eq_Suc)

lemma adder_run:
  "run adder False 64 [SetSignal 0 0 1 50, SetSignal 0 0 2 60, GetSignal 0 0 3, Join, Reset]
     adder_start
   = Some (Inr (adder_done\<lparr>inputSignalsToTrigger := [2]\<rparr>))"
  by (simp add: adder_def adder_start_def adder_done_def adder_fn_def setSignal_def
      getSignal_def copy_out_def join_def await.simps reset_def triggerComponent_def
      read_at_def write_at_def in_range_def)

theorem one_signal_kept_witness:
  "Circom_CalcWit adder False (\<lambda>_. False) (\<lambda>_. 7) = Inr adder_start
   \<and> run adder False 64 [SetSignal 0 0 1 50, SetSignal 0 0 2 60, GetSignal 0 0 3, Join, Reset]
        adder_start
      = Some (Inr (adder_done\<lparr>inputSignalsToTrigger := [2]\<rparr>))
   \<and> signalValues adder_start ! 0 = 1
   \<and> signalValues (adder_done\<lparr>inputSignalsToTrigger := [2]\<rparr>) ! 0 = 1"
proof -
  have release: "\<not> False \<longrightarrow> (\<forall>cur c v. SetSignal cur c 0 v \<notin>
      set [SetSignal 0 0 1 50, SetSignal 0 0 2 60, GetSignal 0 0 3, Join, Reset])"
    by simp
  from one_signal_kept [OF adder_keeps_one adder_built adder_run release]
  show ?thesis using adder_built adder_run by simp
qed

text \<open>
  The claim as written fails in a release build: nothing guards signal 0, and a
  \<open>setSignal\<close> with \<open>sIdx = 0\<close> and the value 5 leaves 5 in \<open>signalValues[0]\<close>.
\<close>

theorem one_signal_overwritten_counterexample:
  "Circom_CalcWit adder False (\<lambda>_. False) (\<lambda>_. 7) = Inr adder_start
   \<and> signalValues adder_start ! 0 = 1
   \<and> setSignal adder False 0 0 0 5 adder_start = Inr (adder_start\<lparr>signalValues := [5, 0, 0, 0]\<rparr>)
   \<and> signalValues (adder_start\<lparr>signalValues := [5, 0, 0, 0]\<rparr>) ! 0 \<noteq> 1"
  by (simp add: Circom_CalcWit_def adder_def adder_start_def reset_def write_at_def
      read_at_def setSignal_def in_range_def numeral_eq_Suc)

section \<open>Signals that were never assigned\<close>





section \<open>The counters\<close>

lemma lowers_refl: "lowers s s"
  by (simp add: lowers_def)

lemma lowers_trans:
  assumes "lowers s t" and "lowers t u"
  shows "lowers s u"
  unfolding lowers_def
proof (intro conjI allI impI)
  show "length (inputSignalsToTrigger u) = length (inputSignalsToTrigger s)"
    using assms by (simp add: lowers_def)
next
  fix c assume c: "c < length (inputSignalsToTrigger s)"
  with assms(1) have 1: "inputSignalsToTrigger t ! c = inputSignalsToTrigger s ! c
           \<or> inputSignalsToTrigger t ! c = - 1
           \<or> (0 \<le> inputSignalsToTrigger t ! c
                \<and> inputSignalsToTrigger t ! c < inputSignalsToTrigger s ! c)"
    by (simp add: lowers_def)
  from assms(1) c have "c < length (inputSignalsToTrigger t)" by (simp add: lowers_def)
  with assms(2) have 2: "inputSignalsToTrigger u ! c = inputSignalsToTrigger t ! c
           \<or> inputSignalsToTrigger u ! c = - 1
           \<or> (0 \<le> inputSignalsToTrigger u ! c
                \<and> inputSignalsToTrigger u ! c < inputSignalsToTrigger t ! c)"
    by (simp add: lowers_def)
  from 1 2 show "inputSignalsToTrigger u ! c = inputSignalsToTrigger s ! c
           \<or> inputSignalsToTrigger u ! c = - 1
           \<or> (0 \<le> inputSignalsToTrigger u ! c
                \<and> inputSignalsToTrigger u ! c < inputSignalsToTrigger s ! c)"
    by linarith
qed

lemma lowers_update:
  assumes "inputSignalsToTrigger s' = (inputSignalsToTrigger s)[k := v]"
    and "v = - 1 \<or> (0 \<le> v \<and> v < inputSignalsToTrigger s ! k)"
  shows "lowers s s'"
  unfolding lowers_def
proof (intro conjI allI impI)
  show "length (inputSignalsToTrigger s') = length (inputSignalsToTrigger s)"
    using assms(1) by simp
next
  fix c assume c: "c < length (inputSignalsToTrigger s)"
  show "inputSignalsToTrigger s' ! c = inputSignalsToTrigger s ! c
           \<or> inputSignalsToTrigger s' ! c = - 1
           \<or> (0 \<le> inputSignalsToTrigger s' ! c
                \<and> inputSignalsToTrigger s' ! c < inputSignalsToTrigger s ! c)"
  proof (cases "c = k")
    case True
    with c assms show ?thesis by auto
  next
    case False
    with assms(1) show ?thesis by simp
  qed
qed

lemma triggerComponent_lowers:
  assumes "fn_lowers circuit" and "triggerComponent circuit c s = Inr s'"
  shows "lowers s s'"
proof -
  from assms(2) have c: "in_range (components circuit) c"
    by (auto simp: triggerComponent_def read_at_def split: if_splits)
  then have mem: "components circuit ! nat c \<in> set (components circuit)"
    by (intro nth_mem in_range_nat)
  show ?thesis
  proof (cases "newThread (components circuit ! nat c)")
    case True
    with assms(2) c have "s' = s\<lparr>threads := threads s @ [c]\<rparr>"
      by (simp add: triggerComponent_def read_at_def)
    then show ?thesis by (simp add: lowers_def)
  next
    case False
    with assms(2) c have "fn (components circuit ! nat c) c s = Inr s'"
      by (simp add: triggerComponent_def read_at_def)
    with assms(1) mem show ?thesis
      unfolding fn_lowers_def by blast
  qed
qed

lemma finished_lowers:
  assumes "finished NMUTEXES c s = Inr (s', evs)"
  shows "lowers s s'"
proof -
  from assms have "inputSignalsToTrigger s' = (inputSignalsToTrigger s)[nat c := - 1]"
    by (auto simp: finished_def write_at_def split: if_splits)
  then show ?thesis
    by (rule lowers_update) simp
qed

lemma setSignal_lowers:
  assumes "fn_lowers circuit" and "setSignal circuit sanity cur c i v s = Inr s'"
  shows "lowers s s'"
proof -
  let ?own = "\<lambda>p. s\<lparr>signalAssigned :=
                          (if sanity then (signalAssigned s)[nat i := True]
                           else signalAssigned s),
                        signalValues := (signalValues s)[nat i := v],
                        inputSignalsToTrigger := p\<rparr>"
  from setSignal_Inr [OF assms(2)] obtain p where p:
    "p = inputSignalsToTrigger s
     \<or> (in_range (inputSignalsToTrigger s) c \<and> 0 < inputSignalsToTrigger s ! nat c
        \<and> p = (inputSignalsToTrigger s)[nat c := inputSignalsToTrigger s ! nat c - 1])"
    "s' = ?own p \<or> triggerComponent circuit c (?own p) = Inr s'"
    by auto
  have own: "lowers s (?own p)"
  proof (cases "p = inputSignalsToTrigger s")
    case True
    then show ?thesis by (simp add: lowers_def)
  next
    case False
    with p(1) have "0 < inputSignalsToTrigger s ! nat c"
      "p = (inputSignalsToTrigger s)[nat c := inputSignalsToTrigger s ! nat c - 1]"
      by simp_all
    then show ?thesis
      by (intro lowers_update [where k = "nat c" and v = "inputSignalsToTrigger s ! nat c - 1"])
        simp_all
  qed
  from p(2) show ?thesis
  proof
    assume "s' = ?own p"
    with own show ?thesis by simp
  next
    assume "triggerComponent circuit c (?own p) = Inr s'"
    from lowers_trans [OF own triggerComponent_lowers [OF assms(1) this]] show ?thesis .
  qed
qed

lemma apply_op_lowers:
  assumes "fn_lowers circuit" and "x \<noteq> Reset"
    and "apply_op circuit sanity NMUTEXES x s = Some (Inr s')"
  shows "lowers s s'"
proof (cases x)
  case (SetSignal cur c i v)
  with assms(3) have "setSignal circuit sanity cur c i v s = Inr s'" by simp
  from setSignal_lowers [OF assms(1) this] show ?thesis .
next
  case (GetSignal cur c i)
  with assms(3) have "s' = s" by (auto split: option.splits sum.splits)
  then show ?thesis by (simp add: lowers_refl)
next
  case Reset
  with assms(2) show ?thesis by simp
next
  case (Finished c)
  with assms(3) obtain evs where "finished NMUTEXES c s = Inr (s', evs)"
    by (auto split: sum.splits)
  then show ?thesis by (rule finished_lowers)
next
  case (TriggerComponent c)
  with assms(3) have "triggerComponent circuit c s = Inr s'" by simp
  from triggerComponent_lowers [OF assms(1) this] show ?thesis .
next
  case Join
  with assms(3) have "s' = s" by (auto split: option.splits sum.splits)
  then show ?thesis by (simp add: lowers_refl)
qed

lemma run_lowers:
  assumes "fn_lowers circuit"
  shows "Reset \<notin> set ops \<Longrightarrow> run circuit sanity NMUTEXES ops s = Some (Inr s') \<Longrightarrow> lowers s s'"
proof (induction ops arbitrary: s)
  case Nil
  then show ?case by (simp add: lowers_refl)
next
  case (Cons x xs)
  from Cons.prems(2) obtain s1 where s1: "apply_op circuit sanity NMUTEXES x s = Some (Inr s1)"
    "run circuit sanity NMUTEXES xs s1 = Some (Inr s')"
    by (auto split: option.splits sum.splits)
  from Cons.prems(1) have "x \<noteq> Reset" "Reset \<notin> set xs" by auto
  from lowers_trans [OF apply_op_lowers [OF assms this(1) s1(1)] Cons.IH [OF this(2) s1(2)]]
  show ?case .
qed

lemma lowers_within:
  assumes "lowers s t" and "within_inputs circuit s c"
  shows "within_inputs circuit t c"
proof -
  from assms(2) have c: "c < length (inputSignalsToTrigger s)" by (simp add: within_inputs_def)
  with assms(1) have "inputSignalsToTrigger t ! c = inputSignalsToTrigger s ! c
           \<or> inputSignalsToTrigger t ! c = - 1
           \<or> (0 \<le> inputSignalsToTrigger t ! c
                \<and> inputSignalsToTrigger t ! c < inputSignalsToTrigger s ! c)"
    and "length (inputSignalsToTrigger t) = length (inputSignalsToTrigger s)"
    by (simp_all add: lowers_def)
  with assms(2) show ?thesis
    unfolding within_inputs_def by linarith
qed

lemma reset_loop_within:
  assumes wf: "\<forall>c\<in>set (components circuit). 0 \<le> inputSignals c"
    and rely: "fn_lowers circuit"
  shows "reset_loop circuit [k..<n] s = Inr s' \<Longrightarrow>
         (\<forall>c<k. within_inputs circuit s c) \<Longrightarrow>
         (\<forall>c. c < k \<or> c < n \<longrightarrow> within_inputs circuit s' c)"
proof (induction "n - k" arbitrary: k s)
  case 0
  then have "s' = s" by simp
  with 0 show ?case by auto
next
  case (Suc m)
  then have kn: "k < n" by simp
  then have list: "[k..<n] = k # [Suc k..<n]" by (rule upt_conv_Cons)
  let ?c = "components circuit ! k"
  let ?s1 = "s\<lparr>inputSignalsToTrigger := (inputSignalsToTrigger s)[k := inputSignals ?c]\<rparr>"
  from Suc.prems(1) list have k: "k < length (components circuit)"
    "k < length (inputSignalsToTrigger s)"
    by (auto simp: read_at_def write_at_def split: if_splits)
  from k(1) wf have nonneg: "0 \<le> inputSignals ?c" by simp
  have pre1: "\<forall>c<Suc k. within_inputs circuit ?s1 c"
  proof (intro allI impI)
    fix c assume "c < Suc k"
    then consider "c = k" | "c < k" by linarith
    then show "within_inputs circuit ?s1 c"
    proof cases
      case 1
      with k nonneg show ?thesis by (simp add: within_inputs_def)
    next
      case 2
      with Suc.prems(2) have "within_inputs circuit s c" by simp
      with 2 show ?thesis by (simp add: within_inputs_def)
    qed
  qed
  have m: "m = n - Suc k" using Suc.hyps(2) by simp
  show ?case
  proof (cases "inputSignals ?c = 0")
    case True
    with Suc.prems(1) list k obtain s2 where s2:
      "triggerComponent circuit (int k) ?s1 = Inr s2"
      "reset_loop circuit [Suc k..<n] s2 = Inr s'"
      by (auto simp: read_at_def write_at_def Let_def split: sum.splits)
    from triggerComponent_lowers [OF rely s2(1)] have "lowers ?s1 s2" .
    with pre1 have "\<forall>c<Suc k. within_inputs circuit s2 c"
      using lowers_within by blast
    from Suc.hyps(1) [OF m s2(2) this] show ?thesis by auto
  next
    case False
    with Suc.prems(1) list k have "reset_loop circuit [Suc k..<n] ?s1 = Inr s'"
      by (auto simp: read_at_def write_at_def Let_def)
    from Suc.hyps(1) [OF m this pre1] show ?thesis by auto
  qed
qed

lemma reset_within:
  assumes wf: "\<forall>c\<in>set (components circuit). 0 \<le> inputSignals c"
    and rely: "fn_lowers circuit"
    and "reset circuit sanity s0 = Inr s"
    and "c < nat (NComponents circuit)"
  shows "within_inputs circuit s c"
proof -
  from assms(3) obtain s1 where
    "reset_loop circuit [0..<nat (NComponents circuit)] s1 = Inr s"
    by (auto simp: reset_def split: if_splits sum.splits)
  from reset_loop_within [OF wf rely this] assms(4) show ?thesis by simp
qed

lemma apply_op_change:
  assumes op: "apply_op circuit sanity NMUTEXES x s = Some (Inr s')"
    and quiet: "\<not> runs_in_place circuit x s"
    and "x \<noteq> Reset"
    and c: "c < length (inputSignalsToTrigger s)"
    and changed: "inputSignalsToTrigger s' ! c \<noteq> inputSignalsToTrigger s ! c"
  shows "(x = Finished (int c) \<and> inputSignalsToTrigger s' ! c = - 1)
       \<or> (\<exists>cur i v. x = SetSignal cur (int c) i v \<and> mapIsInput circuit i
             \<and> 0 < inputSignalsToTrigger s ! c
             \<and> inputSignalsToTrigger s' ! c = inputSignalsToTrigger s ! c - 1)"
proof (cases x)
  case (SetSignal cur c' i v)
  with op have r: "setSignal circuit sanity cur c' i v s = Inr s'" by simp
  let ?own = "\<lambda>p. s\<lparr>signalAssigned :=
                          (if sanity then (signalAssigned s)[nat i := True]
                           else signalAssigned s),
                        signalValues := (signalValues s)[nat i := v],
                        inputSignalsToTrigger := p\<rparr>"
  from setSignal_Inr [OF r] obtain p where p:
    "p = inputSignalsToTrigger s
     \<or> (mapIsInput circuit i \<and> in_range (inputSignalsToTrigger s) c'
        \<and> 0 < inputSignalsToTrigger s ! nat c'
        \<and> p = (inputSignalsToTrigger s)[nat c' := inputSignalsToTrigger s ! nat c' - 1])"
    "s' = ?own p
     \<or> (mapIsInput circuit i \<and> in_range (inputSignalsToTrigger s) c'
        \<and> inputSignalsToTrigger s ! nat c' = 1
        \<and> triggerComponent circuit c' (?own p) = Inr s')"
    by auto
  have same: "inputSignalsToTrigger s' = p"
  using p(2) proof
    assume "s' = ?own p"
    then show ?thesis by simp
  next
    assume t: "mapIsInput circuit i \<and> in_range (inputSignalsToTrigger s) c'
        \<and> inputSignalsToTrigger s ! nat c' = 1
        \<and> triggerComponent circuit c' (?own p) = Inr s'"
    then have cr: "in_range (components circuit) c'"
      by (auto simp: triggerComponent_def read_at_def split: if_splits)
    with t quiet SetSignal have "newThread (components circuit ! nat c')" by simp
    with t cr have "s' = (?own p)\<lparr>threads := threads (?own p) @ [c']\<rparr>"
      by (simp add: triggerComponent_def read_at_def)
    then show ?thesis by simp
  qed
  with changed have "p \<noteq> inputSignalsToTrigger s" by auto
  with p(1) have d: "mapIsInput circuit i" "in_range (inputSignalsToTrigger s) c'"
    "0 < inputSignalsToTrigger s ! nat c'"
    "p = (inputSignalsToTrigger s)[nat c' := inputSignalsToTrigger s ! nat c' - 1]"
    by simp_all
  from changed same d(4) have "nat c' = c"
    by (cases "nat c' = c") simp_all
  with d(2) have "c' = int c" by (auto simp: in_range_def)
  with SetSignal same d c show ?thesis by simp
next
  case (GetSignal cur c' i)
  with op have "s' = s" by (auto split: option.splits sum.splits)
  with changed show ?thesis by simp
next
  case Reset
  with assms(3) show ?thesis by simp
next
  case (Finished c')
  with op have f: "in_range (inputSignalsToTrigger s) c'"
    "inputSignalsToTrigger s' = (inputSignalsToTrigger s)[nat c' := - 1]"
    by (auto simp: finished_def write_at_def split: if_splits sum.splits)
  from changed f(2) have "nat c' = c"
    by (cases "nat c' = c") simp_all
  with f(1) have "c' = int c" by (auto simp: in_range_def)
  with Finished f c show ?thesis by simp
next
  case (TriggerComponent c')
  with op have t: "triggerComponent circuit c' s = Inr s'" by simp
  then have cr: "in_range (components circuit) c'"
    by (auto simp: triggerComponent_def read_at_def split: if_splits)
  with quiet TriggerComponent have "newThread (components circuit ! nat c')" by simp
  with t cr have "s' = s\<lparr>threads := threads s @ [c']\<rparr>"
    by (simp add: triggerComponent_def read_at_def)
  with changed show ?thesis by simp
next
  case Join
  with op have "s' = s" by (auto split: option.splits sum.splits)
  with changed show ?thesis by simp
qed

lemma reset_loop_exact:
  assumes quiet: "\<forall>c<n. c < length (components circuit) \<longrightarrow>
                    inputSignals (components circuit ! c) = 0 \<longrightarrow>
                    newThread (components circuit ! c)"
  shows "reset_loop circuit [k..<n] s = Inr s' \<Longrightarrow>
         (\<forall>c. k \<le> c \<and> c < n \<longrightarrow>
              inputSignalsToTrigger s' ! c = inputSignals (components circuit ! c))
         \<and> (\<forall>c<k. inputSignalsToTrigger s' ! c = inputSignalsToTrigger s ! c)"
proof (induction "n - k" arbitrary: k s)
  case 0
  then have "s' = s" by simp
  with 0 show ?case by auto
next
  case (Suc m)
  then have kn: "k < n" by simp
  then have list: "[k..<n] = k # [Suc k..<n]" by (rule upt_conv_Cons)
  let ?c = "components circuit ! k"
  let ?s1 = "s\<lparr>inputSignalsToTrigger := (inputSignalsToTrigger s)[k := inputSignals ?c]\<rparr>"
  from Suc.prems(1) list have k: "k < length (components circuit)"
    "k < length (inputSignalsToTrigger s)"
    by (auto simp: read_at_def write_at_def split: if_splits)
  have m: "m = n - Suc k" using Suc.hyps(2) by simp
  have "\<exists>s2. inputSignalsToTrigger s2 = inputSignalsToTrigger ?s1
            \<and> reset_loop circuit [Suc k..<n] s2 = Inr s'"
  proof (cases "inputSignals ?c = 0")
    case True
    with quiet kn k have "newThread ?c" by simp
    with True Suc.prems(1) list k
    have "reset_loop circuit [Suc k..<n] (?s1\<lparr>threads := threads ?s1 @ [int k]\<rparr>) = Inr s'"
      by (simp add: read_at_def write_at_def Let_def triggerComponent_def)
    then show ?thesis
      by (intro exI [of _ "?s1\<lparr>threads := threads ?s1 @ [int k]\<rparr>"]) simp
  next
    case False
    with Suc.prems(1) list k have "reset_loop circuit [Suc k..<n] ?s1 = Inr s'"
      by (auto simp: read_at_def write_at_def Let_def)
    then show ?thesis by (intro exI [of _ ?s1]) simp
  qed
  then obtain s2 where s2: "inputSignalsToTrigger s2 = inputSignalsToTrigger ?s1"
    "reset_loop circuit [Suc k..<n] s2 = Inr s'" by blast
  from Suc.hyps(1) [OF m s2(2)]
  have IH: "\<forall>c. Suc k \<le> c \<and> c < n \<longrightarrow>
              inputSignalsToTrigger s' ! c = inputSignals (components circuit ! c)"
    "\<forall>c<Suc k. inputSignalsToTrigger s' ! c = inputSignalsToTrigger s2 ! c"
    by simp_all
  show ?case
  proof (intro conjI allI impI)
    fix c assume c: "k \<le> c \<and> c < n"
    show "inputSignalsToTrigger s' ! c = inputSignals (components circuit ! c)"
    proof (cases "c = k")
      case True
      with IH(2) s2(1) k show ?thesis by simp
    next
      case False
      with c IH(1) show ?thesis by simp
    qed
  next
    fix c assume "c < k"
    with IH(2) s2(1) show "inputSignalsToTrigger s' ! c = inputSignalsToTrigger s ! c"
      by simp
  qed
qed

lemma reset_exact:
  assumes "reset circuit sanity s0 = Inr s"
    and "\<not> runs_in_place circuit Reset s0"
    and "c < nat (NComponents circuit)"
  shows "inputSignalsToTrigger s ! c = inputSignals (components circuit ! c)"
proof -
  let ?n = "nat (NComponents circuit)"
  have quiet: "\<forall>c<?n. c < length (components circuit) \<longrightarrow>
                    inputSignals (components circuit ! c) = 0 \<longrightarrow>
                    newThread (components circuit ! c)"
  proof (intro allI impI)
    fix c assume c: "c < ?n" "c < length (components circuit)"
      and z: "inputSignals (components circuit ! c) = 0"
    from c have "components circuit ! c \<in> set (take ?n (components circuit))"
      by (metis length_take min_less_iff_conj nth_mem nth_take)
    with assms(2) z show "newThread (components circuit ! c)" by auto
  qed
  from assms(1) obtain s1 where
    "reset_loop circuit [0..<?n] s1 = Inr s"
    by (auto simp: reset_def split: if_splits sum.splits)
  from reset_loop_exact [OF quiet this] assms(3) show ?thesis by simp
qed

text \<open>
  Claim C6. Let every component have a number of input signals that is not negative,
  and let the generated functions act on the counters as sequences of \<open>setSignal\<close> and
  \<open>finished\<close> do (\<open>fn_lowers\<close>: no function calls \<open>reset\<close>). Take a \<open>reset\<close>, then any
  sequence of operations without \<open>reset\<close>, then any further such sequence, with the
  states \<open>sr\<close>, \<open>s1\<close> and \<open>s2\<close> after each. For every component \<open>c\<close>: the counter after
  \<open>reset\<close> is at most \<open>inputSignals\<close>, and is \<open>inputSignals\<close> when \<open>reset\<close> ran no function in
  place; from \<open>sr\<close> to \<open>s1\<close> to \<open>s2\<close> it never grows and never goes below \<open>-1\<close>; and if it
  is \<open>-1\<close> in \<open>s1\<close> it is \<open>-1\<close> in \<open>s2\<close>. Moreover a single operation other than \<open>reset\<close>
  that runs no function in place changes the counter of \<open>c\<close> in two ways only:
  \<open>finished c\<close> sets it to \<open>-1\<close>, and a \<open>setSignal\<close> that names \<open>c\<close> as the owning
  component, on a signal whose input bit is set, takes it from a positive value to the
  value one less.
\<close>

theorem counters_only_go_down:
  assumes wf: "\<forall>c\<in>set (components circuit). 0 \<le> inputSignals c"
    and rely: "fn_lowers circuit"
    and start: "reset circuit sanity s0 = Inr sr"
    and no_reset: "Reset \<notin> set ops1 \<and> Reset \<notin> set ops2"
    and run1: "run circuit sanity NMUTEXES ops1 sr = Some (Inr s1)"
    and run2: "run circuit sanity NMUTEXES ops2 s1 = Some (Inr s2)"
    and c: "c < nat (NComponents circuit)"
  shows "- 1 \<le> inputSignalsToTrigger s2 ! c
       \<and> inputSignalsToTrigger s2 ! c \<le> inputSignalsToTrigger s1 ! c
       \<and> inputSignalsToTrigger s1 ! c \<le> inputSignalsToTrigger sr ! c
       \<and> inputSignalsToTrigger sr ! c \<le> inputSignals (components circuit ! c)
       \<and> (\<not> runs_in_place circuit Reset s0 \<longrightarrow>
             inputSignalsToTrigger sr ! c = inputSignals (components circuit ! c))
       \<and> (inputSignalsToTrigger s1 ! c = - 1 \<longrightarrow> inputSignalsToTrigger s2 ! c = - 1)
       \<and> (\<forall>x s s'. apply_op circuit sanity NMUTEXES x s = Some (Inr s')
              \<and> \<not> runs_in_place circuit x s \<and> x \<noteq> Reset
              \<and> c < length (inputSignalsToTrigger s)
              \<and> inputSignalsToTrigger s' ! c \<noteq> inputSignalsToTrigger s ! c
            \<longrightarrow> (x = Finished (int c) \<and> inputSignalsToTrigger s' ! c = - 1)
               \<or> (\<exists>cur i v. x = SetSignal cur (int c) i v \<and> mapIsInput circuit i
                     \<and> 0 < inputSignalsToTrigger s ! c
                     \<and> inputSignalsToTrigger s' ! c = inputSignalsToTrigger s ! c - 1))"
proof -
  from reset_within [OF wf rely start c] have wr: "within_inputs circuit sr c" .
  from no_reset have n1: "Reset \<notin> set ops1" and n2: "Reset \<notin> set ops2" by simp_all
  from run_lowers [OF rely n1 run1] have l1: "lowers sr s1" .
  from run_lowers [OF rely n2 run2] have l2: "lowers s1 s2" .
  from lowers_within [OF l1 wr] have w1: "within_inputs circuit s1 c" .
  from wr have cr: "c < length (inputSignalsToTrigger sr)" by (simp add: within_inputs_def)
  from w1 have c1: "c < length (inputSignalsToTrigger s1)" by (simp add: within_inputs_def)
  from l1 cr have a: "inputSignalsToTrigger s1 ! c = inputSignalsToTrigger sr ! c
           \<or> inputSignalsToTrigger s1 ! c = - 1
           \<or> (0 \<le> inputSignalsToTrigger s1 ! c
                \<and> inputSignalsToTrigger s1 ! c < inputSignalsToTrigger sr ! c)"
    by (simp add: lowers_def)
  from l2 c1 have b: "inputSignalsToTrigger s2 ! c = inputSignalsToTrigger s1 ! c
           \<or> inputSignalsToTrigger s2 ! c = - 1
           \<or> (0 \<le> inputSignalsToTrigger s2 ! c
                \<and> inputSignalsToTrigger s2 ! c < inputSignalsToTrigger s1 ! c)"
    by (simp add: lowers_def)
  from wr have r: "- 1 \<le> inputSignalsToTrigger sr ! c"
    "inputSignalsToTrigger sr ! c \<le> inputSignals (components circuit ! c)"
    by (simp_all add: within_inputs_def)
  from a b r have order: "- 1 \<le> inputSignalsToTrigger s2 ! c
       \<and> inputSignalsToTrigger s2 ! c \<le> inputSignalsToTrigger s1 ! c
       \<and> inputSignalsToTrigger s1 ! c \<le> inputSignalsToTrigger sr ! c
       \<and> (inputSignalsToTrigger s1 ! c = - 1 \<longrightarrow> inputSignalsToTrigger s2 ! c = - 1)"
    by linarith
  have exact: "\<not> runs_in_place circuit Reset s0 \<longrightarrow>
             inputSignalsToTrigger sr ! c = inputSignals (components circuit ! c)"
    using reset_exact [OF start _ c] by blast
  have steps: "\<forall>x s s'. apply_op circuit sanity NMUTEXES x s = Some (Inr s')
              \<and> \<not> runs_in_place circuit x s \<and> x \<noteq> Reset
              \<and> c < length (inputSignalsToTrigger s)
              \<and> inputSignalsToTrigger s' ! c \<noteq> inputSignalsToTrigger s ! c
            \<longrightarrow> (x = Finished (int c) \<and> inputSignalsToTrigger s' ! c = - 1)
               \<or> (\<exists>cur i v. x = SetSignal cur (int c) i v \<and> mapIsInput circuit i
                     \<and> 0 < inputSignalsToTrigger s ! c
                     \<and> inputSignalsToTrigger s' ! c = inputSignalsToTrigger s ! c - 1)"
    using apply_op_change by blast
  from order r(2) exact steps show ?thesis by blast
qed

text \<open>
  The adder, reset after a run and fed again: its counter goes 2, 1 and, through its
  function, \<open>-1\<close>, where it stays while signal 3 is read.
\<close>

lemma adder_lowers: "fn_lowers adder"
proof -
  have "lowers s (s\<lparr>signalValues := vs,
                    inputSignalsToTrigger := (inputSignalsToTrigger s)[nat i := - 1]\<rparr>)" for s vs i
    by (rule lowers_update [where k = "nat i" and v = "- 1"]) simp_all
  then show ?thesis
    by (simp add: fn_lowers_def adder_def adder_fn_def)
qed

lemma adder_reset: "reset adder False adder_done = Inr (adder_done\<lparr>inputSignalsToTrigger := [2]\<rparr>)"
  by (simp add: reset_def adder_def adder_done_def read_at_def write_at_def in_range_def)

lemma adder_again:
  "run adder False 64 [SetSignal 0 0 1 50] (adder_done\<lparr>inputSignalsToTrigger := [2]\<rparr>)
     = Some (Inr (adder_done\<lparr>inputSignalsToTrigger := [1]\<rparr>))"
  "run adder False 64 [SetSignal 1 0 2 60, GetSignal 1 0 3]
     (adder_done\<lparr>inputSignalsToTrigger := [1]\<rparr>) = Some (Inr adder_done)"
  by (simp_all add: adder_def adder_done_def adder_fn_def setSignal_def getSignal_def
      copy_out_def triggerComponent_def read_at_def write_at_def in_range_def)

theorem counters_only_go_down_witness:
  "reset adder False adder_done = Inr (adder_done\<lparr>inputSignalsToTrigger := [2]\<rparr>)
   \<and> run adder False 64 [SetSignal 0 0 1 50] (adder_done\<lparr>inputSignalsToTrigger := [2]\<rparr>)
       = Some (Inr (adder_done\<lparr>inputSignalsToTrigger := [1]\<rparr>))
   \<and> run adder False 64 [SetSignal 1 0 2 60, GetSignal 1 0 3]
       (adder_done\<lparr>inputSignalsToTrigger := [1]\<rparr>) = Some (Inr adder_done)
   \<and> inputSignalsToTrigger adder_done ! 0 = - 1
   \<and> inputSignals (components adder ! 0) = 2"
proof -
  have wf: "\<forall>c\<in>set (components adder). 0 \<le> inputSignals c" by (simp add: adder_def)
  have nr: "Reset \<notin> set [SetSignal 0 0 1 50] \<and> Reset \<notin> set [SetSignal 1 0 2 60, GetSignal 1 0 3]"
    by simp
  have c: "0 < nat (NComponents adder)" by (simp add: adder_def)
  from counters_only_go_down [OF wf adder_lowers adder_reset nr adder_again c]
  show ?thesis using adder_reset adder_again
    by (simp add: adder_def adder_done_def)
qed

section \<open>reset\<close>

lemma clearAssigned_cleared:
  "clearAssigned cs a = Inr a' \<Longrightarrow> \<forall>j\<in>set cs. j < length a \<and> \<not> a' ! j"
proof (induction cs arbitrary: a)
  case Nil
  then show ?case by simp
next
  case (Cons i cs)
  from Cons.prems have i: "i < length a" and rest: "clearAssigned cs (a[i := False]) = Inr a'"
    by (auto simp: write_at_def split: if_splits)
  from Cons.IH [OF rest] have IH: "\<forall>j\<in>set cs. j < length a \<and> \<not> a' ! j" by simp
  have "\<not> a' ! i"
  proof (cases "i \<in> set cs")
    case True
    with IH show ?thesis by simp
  next
    case False
    with clearAssigned_Inr [OF rest] i show ?thesis by simp
  qed
  with i IH show ?case by simp
qed

lemma reset_loop_frame:
  assumes quiet: "\<forall>c<n. c < length (components circuit) \<longrightarrow>
                    inputSignals (components circuit ! c) = 0 \<longrightarrow>
                    newThread (components circuit ! c)"
  shows "reset_loop circuit [k..<n] s = Inr s' \<Longrightarrow>
         signalValues s' = signalValues s \<and> signalAssigned s' = signalAssigned s
         \<and> threads s' = threads s
              @ map int (filter (\<lambda>c. inputSignals (components circuit ! c) = 0) [k..<n])"
proof (induction "n - k" arbitrary: k s)
  case 0
  then show ?case by simp
next
  case (Suc m)
  then have kn: "k < n" by simp
  then have list: "[k..<n] = k # [Suc k..<n]" by (rule upt_conv_Cons)
  let ?c = "components circuit ! k"
  let ?s1 = "s\<lparr>inputSignalsToTrigger := (inputSignalsToTrigger s)[k := inputSignals ?c]\<rparr>"
  from Suc.prems(1) list have k: "k < length (components circuit)"
    "k < length (inputSignalsToTrigger s)"
    by (auto simp: read_at_def write_at_def split: if_splits)
  have m: "m = n - Suc k" using Suc.hyps(2) by simp
  show ?case
  proof (cases "inputSignals ?c = 0")
    case True
    with quiet kn k have "newThread ?c" by simp
    with True Suc.prems(1) list k
    have "reset_loop circuit [Suc k..<n] (?s1\<lparr>threads := threads ?s1 @ [int k]\<rparr>) = Inr s'"
      by (simp add: read_at_def write_at_def Let_def triggerComponent_def)
    from Suc.hyps(1) [OF m this] True show ?thesis
      by (simp add: list)
  next
    case False
    with Suc.prems(1) list k have "reset_loop circuit [Suc k..<n] ?s1 = Inr s'"
      by (auto simp: read_at_def write_at_def Let_def)
    from Suc.hyps(1) [OF m this] False show ?thesis
      by (simp add: list)
  qed
qed

text \<open>
  What \<open>reset\<close> does when it runs no function in place: it keeps the signal values, sets
  every counter to the component's number of input signals, starts a thread for each
  component without inputs, and in a sanity build clears the mask at the indices from 1
  to \<open>NComponents - 1\<close> and at no other.
\<close>

lemma reset_without_calls:
  assumes "reset circuit sanity s = Inr s'"
    and "\<not> runs_in_place circuit Reset s"
  shows "signalValues s' = signalValues s
       \<and> (\<forall>c<nat (NComponents circuit).
             inputSignalsToTrigger s' ! c = inputSignals (components circuit ! c))
       \<and> threads s' = threads s
            @ map int (filter (\<lambda>c. inputSignals (components circuit ! c) = 0)
                         [0..<nat (NComponents circuit)])
       \<and> (if sanity
           then length (signalAssigned s') = length (signalAssigned s)
              \<and> (\<forall>j. 1 \<le> j \<and> j < nat (NComponents circuit) \<longrightarrow> \<not> signalAssigned s' ! j)
              \<and> (\<forall>j. j = 0 \<or> nat (NComponents circuit) \<le> j \<longrightarrow>
                     signalAssigned s' ! j = signalAssigned s ! j)
           else signalAssigned s' = signalAssigned s)"
proof -
  let ?n = "nat (NComponents circuit)"
  have quiet: "\<forall>c<?n. c < length (components circuit) \<longrightarrow>
                    inputSignals (components circuit ! c) = 0 \<longrightarrow>
                    newThread (components circuit ! c)"
  proof (intro allI impI)
    fix c assume c: "c < ?n" "c < length (components circuit)"
      and z: "inputSignals (components circuit ! c) = 0"
    from c have "components circuit ! c \<in> set (take ?n (components circuit))"
      by (metis length_take min_less_iff_conj nth_mem nth_take)
    with assms(2) z show "newThread (components circuit ! c)" by auto
  qed
  have cnt: "\<forall>c<?n. inputSignalsToTrigger s' ! c = inputSignals (components circuit ! c)"
    using reset_exact [OF assms] by simp
  show ?thesis
  proof (cases sanity)
    case False
    with assms(1) have "reset_loop circuit [0..<?n] s = Inr s'" by (simp add: reset_def)
    from reset_loop_frame [OF quiet this] cnt False show ?thesis by simp
  next
    case True
    with assms(1) obtain a where a:
      "clearAssigned [1..<?n] (signalAssigned s) = Inr a"
      "reset_loop circuit [0..<?n] (s\<lparr>signalAssigned := a\<rparr>) = Inr s'"
      by (auto simp: reset_def split: sum.splits)
    from reset_loop_frame [OF quiet a(2)] have f: "signalValues s' = signalValues s"
      "signalAssigned s' = a"
      "threads s' = threads s
         @ map int (filter (\<lambda>c. inputSignals (components circuit ! c) = 0) [0..<?n])"
      by simp_all
    from clearAssigned_Inr [OF a(1)] have "length a = length (signalAssigned s)"
      "\<forall>j. j = 0 \<or> ?n \<le> j \<longrightarrow> a ! j = signalAssigned s ! j" by auto
    moreover from clearAssigned_cleared [OF a(1)]
    have "\<forall>j. 1 \<le> j \<and> j < ?n \<longrightarrow> \<not> a ! j" by simp
    ultimately show ?thesis using f cnt True by simp
  qed
qed

text \<open>
  Claim C5 asks \<open>reset\<close> to clear the sanity mask of every signal but signal 0. The loop
  that clears the mask counts to \<open>NComponents\<close>, though the mask has one cell per signal:
  on the adder (four signals, one component) it clears nothing. After a finished run in
  a sanity build, \<open>reset\<close> restores the counter, keeps the signal values and leaves all
  four mask bits set, so that the next \<open>setSignal\<close> on signal 1 is refused as a second
  assignment.
\<close>

theorem reset_leaves_mask:
  "signalAssigned adder_done_sanity = [True, True, True, True]
   \<and> reset adder True adder_done_sanity = Inr (adder_done_sanity\<lparr>inputSignalsToTrigger := [2]\<rparr>)
   \<and> run adder True 64 [Reset, SetSignal 0 0 1 50] adder_done_sanity
       = Some (Inl (SignalAssignedTwice 1))"
  by (simp add: adder_def adder_done_sanity_def adder_done_def reset_def setSignal_def
      read_at_def write_at_def in_range_def)

end
